theory Spec2Isabelle
  imports Complex_Main "HOL-Library.FSet"
begin

section \<open>Data model of \<^verbatim>\<open>src/src/App.tsx\<close>\<close>

text \<open>
  The constants of the source file, with the types the code uses them at: row and column
  counts index arrays, the others are numbers of the game.
\<close>

definition COLS :: nat where "COLS = 6"
definition ROWS :: nat where "ROWS = 10"
definition INITIAL_ROWS :: nat where "INITIAL_ROWS = 3"
definition TARGET_MIN :: int where "TARGET_MIN = 10"
definition TARGET_MAX :: int where "TARGET_MAX = 25"
definition BLOCK_MIN :: int where "BLOCK_MIN = 1"
definition BLOCK_MAX :: int where "BLOCK_MAX = 9"
definition TIME_MODE_INTERVAL :: int where "TIME_MODE_INTERVAL = 8000"

datatype GameMode = Classic | Time

text \<open>
  \<^verbatim>\<open>interface Block { id: string; value: number; isSelected: boolean }\<close>. The fields
  \<^verbatim>\<open>id\<close> and \<^verbatim>\<open>value\<close> are written \<open>block_id\<close> and \<open>block_value\<close>.
  A cell of the grid is \<^verbatim>\<open>Block | null\<close>, the grid an array of rows, row 0 on top.
\<close>

record Block =
  block_id :: string
  block_value :: int
  isSelected :: bool

type_synonym Cell = "Block option"
type_synonym Grid = "Cell list list"

text \<open>
  The component's state, one field per \<^verbatim>\<open>useState\<close>. A \<^verbatim>\<open>Set<string>\<close> is a finite
  set of strings: the code only tests membership, adds, deletes and reads the size.
\<close>

record game =
  grid :: Grid
  target :: int
  selectedIds :: "string fset"
  score :: int
  highScore :: int
  isGameOver :: bool
  gameStarted :: bool
  mode :: GameMode
  timeLeft :: int
  isPaused :: bool
  clearingIds :: "string fset"
  isProcessing :: bool

text \<open>
  What the code can throw: a property read through \<^verbatim>\<open>undefined\<close>, when a row that the
  code indexes is not there.
\<close>

datatype error = TypeError

section \<open>Random draws\<close>

text \<open>
  \<^verbatim>\<open>generateBlock\<close> calls \<^verbatim>\<open>Math.random()\<close> twice. The host's generator is not part of
  the program, so each call of \<^verbatim>\<open>generateBlock\<close> receives its two draws as an argument.
  \<open>id_text\<close> is the text \<^verbatim>\<open>Math.random().toString(36)\<close> of the first draw (such as
  \<^verbatim>\<open>0.4i\<close> for the draw 1/8). The second draw is a double \<open>u\<close> with \<open>0 \<le> u < 1\<close>: every
  such double is \<open>mantissa / 2 ^ exponent\<close> for a mantissa below \<open>2 ^ 53\<close> and an exponent
  from 53 to 1074.
\<close>

record draw =
  id_text :: string
  mantissa :: nat
  exponent :: nat

definition validDraw :: "draw \<Rightarrow> bool" where
  "validDraw d \<longleftrightarrow> mantissa d < 2 ^ 53 \<and> 53 \<le> exponent d \<and> exponent d \<le> 1074"

text \<open>
  The draw of \<^verbatim>\<open>generateTarget\<close> is a number \<open>u\<close> with \<open>0 \<le> u < 1\<close>; its product with 16
  is exact in doubles.
\<close>

definition unit_interval :: "real \<Rightarrow> bool" where
  "unit_interval u \<longleftrightarrow> 0 \<le> u \<and> u < 1"

text \<open>
  The product of a double \<open>m / 2 ^ e\<close> with 9 is the double nearest to \<open>9 * m / 2 ^ e\<close>,
  the one with an even significand when two are equally near. \<open>extraBits n\<close> is the number
  of bits that \<open>n\<close> has beyond the 53 of a significand, and \<open>roundToDouble n\<close> the number
  \<open>n\<close> rounded to 53 significant bits in that way, so that the product is
  \<open>roundToDouble (9 * m) / 2 ^ e\<close>. A product that needs rounding is at least
  \<open>2 ^ 53 / 2 ^ 1074\<close>, so it is not subnormal.
\<close>

function extraBits :: "nat \<Rightarrow> nat" where
  "extraBits n = (if n < 2 ^ 53 then 0 else Suc (extraBits (n div 2)))"
  by pat_completeness auto
termination
  by (relation "measure id") auto

definition roundToDouble :: "nat \<Rightarrow> nat" where
  "roundToDouble n =
     (let k = extraBits n; q = n div 2 ^ k; r = n mod 2 ^ k
      in if 2 ^ k < 2 * r \<or> (2 * r = 2 ^ k \<and> odd q) then (q + 1) * 2 ^ k else q * 2 ^ k)"

text \<open>
  \<^verbatim>\<open>s.substring(a, b)\<close>: the characters from the smaller index up to the larger one,
  both clamped to the length of \<open>s\<close>.
\<close>

definition substring :: "nat \<Rightarrow> nat \<Rightarrow> string \<Rightarrow> string" where
  "substring a b s = take (max a b - min a b) (drop (min a b) s)"

text \<open>
  \<^verbatim>\<open>
  const generateBlock = (): Block => ({
    id: Math.random().toString(36).substring(2, 11),
    value: Math.floor(Math.random() * (BLOCK_MAX - BLOCK_MIN + 1)) + BLOCK_MIN,
    isSelected: false })
  \<close>
  \<^verbatim>\<open>BLOCK_MAX - BLOCK_MIN + 1\<close> is 9 and is exact, the product is rounded to a double,
  and the floor of the rounded product and its sum with \<^verbatim>\<open>BLOCK_MIN\<close> are exact.
\<close>

definition generateBlock :: "draw \<Rightarrow> Block" where
  "generateBlock d =
     \<lparr> block_id = substring 2 11 (id_text d),
       block_value =
         int (roundToDouble (mantissa d * nat (BLOCK_MAX - BLOCK_MIN + 1)) div 2 ^ exponent d)
         + BLOCK_MIN,
       isSelected = False \<rparr>"

text \<open>
  \<^verbatim>\<open>generateTarget\<close> is
  \<^verbatim>\<open>setTarget(Math.floor(Math.random() * (TARGET_MAX - TARGET_MIN + 1)) + TARGET_MIN)\<close>;
  the draw \<open>u\<close> is an argument and \<open>nextTarget u\<close> the number that is stored.
\<close>

definition nextTarget :: "real \<Rightarrow> int" where
  "nextTarget u = \<lfloor>u * real_of_int (TARGET_MAX - TARGET_MIN + 1)\<rfloor> + TARGET_MIN"

definition generateTarget :: "real \<Rightarrow> game \<Rightarrow> game" where
  "generateTarget u s = s\<lparr>target := nextTarget u\<rparr>"

section \<open>Grid operations\<close>

text \<open>
  \<^verbatim>\<open>row.some(cell => cell !== null)\<close> on a row, and the game-over predicate
  \<^verbatim>\<open>grid.length > 0 && grid[0].some(cell => cell !== null)\<close>.
\<close>

definition rowOccupied :: "Cell list \<Rightarrow> bool" where
  "rowOccupied row = list_ex (\<lambda>cell. cell \<noteq> None) row"

definition isTopRowOccupied :: "Grid \<Rightarrow> bool" where
  "isTopRowOccupied g = (0 < length g \<and> rowOccupied (g ! 0))"

text \<open>
  The row that \<^verbatim>\<open>Array.from({ length: COLS }, () => generateBlock())\<close> builds; \<open>bs c\<close>
  is the draw of the \<open>c\<close>-th call.
\<close>

definition freshRow :: "(nat \<Rightarrow> draw) \<Rightarrow> Cell list" where
  "freshRow bs = map (\<lambda>c. Some (generateBlock (bs c))) [0..<COLS]"

text \<open>
  The updater that \<^verbatim>\<open>addRow\<close> hands to \<^verbatim>\<open>setGrid\<close>:
  \<^verbatim>\<open>
  prev => {
    if (prev[0].some(cell => cell !== null)) return prev;
    const nextGrid = prev.map((row, i) => {
      if (i === ROWS - 1) return Array.from({ length: COLS }, () => generateBlock());
      return prev[i + 1];
    });
    return nextGrid;
  }
  \<close>
  On an empty array \<^verbatim>\<open>prev[0]\<close> is \<^verbatim>\<open>undefined\<close> and \<^verbatim>\<open>.some\<close> throws. When the array
  has a number of rows other than \<open>ROWS\<close>, the last index \<open>i\<close> is not \<open>ROWS - 1\<close> and
  \<^verbatim>\<open>prev[i + 1]\<close> is \<^verbatim>\<open>undefined\<close>: the array stored is not a grid, and the render that
  follows throws at \<^verbatim>\<open>row.map\<close> of that row. Both are the error of the model.
\<close>

definition injectRow :: "(nat \<Rightarrow> draw) \<Rightarrow> Grid \<Rightarrow> error + Grid" where
  "injectRow bs prev =
     (case prev of
        [] \<Rightarrow> Inl TypeError
      | row0 # _ \<Rightarrow>
          if rowOccupied row0 then Inr prev
          else if length prev \<noteq> ROWS then Inl TypeError
          else Inr (map (\<lambda>i. if i = ROWS - 1 then freshRow bs else prev ! (i + 1))
                      [0..<length prev]))"

text \<open>
  Reading and writing a cell as JavaScript does. \<^verbatim>\<open>row[c]\<close> past the end is
  \<^verbatim>\<open>undefined\<close>, which the code only tests for truth, as it does \<^verbatim>\<open>null\<close>: both are
  \<open>None\<close>. \<^verbatim>\<open>row[c] = v\<close> past the end extends the row; the holes it leaves are skipped by
  \<^verbatim>\<open>some\<close> and \<^verbatim>\<open>map\<close> and read as \<^verbatim>\<open>undefined\<close>, so they are \<open>None\<close> too.
\<close>

definition cellAt :: "Cell list \<Rightarrow> nat \<Rightarrow> Cell" where
  "cellAt row c = (if c < length row then row ! c else None)"

definition setCell :: "Cell list \<Rightarrow> nat \<Rightarrow> Cell \<Rightarrow> Cell list" where
  "setCell row c v =
     (if c < length row then row[c := v]
      else row @ replicate (c - length row) None @ [v])"

text \<open>
  The first inner loop of the gravity pass, for column \<open>c\<close>:
  \<^verbatim>\<open>
  const colBlocks = [];
  for (let r = ROWS - 1; r >= 0; r--) {
    if (nextGrid[r][c]) colBlocks.push(nextGrid[r][c]);
  }
  \<close>
\<close>

definition collectColumn :: "Grid \<Rightarrow> nat \<Rightarrow> Block list" where
  "collectColumn g c =
     fold (\<lambda>r colBlocks. case cellAt (g ! r) c of
                            Some b \<Rightarrow> colBlocks @ [b]
                          | None \<Rightarrow> colBlocks)
          (rev [0..<ROWS]) []"

text \<open>
  The second inner loop:
  \<^verbatim>\<open>
  for (let r = ROWS - 1; r >= 0; r--) {
    const block = colBlocks[ROWS - 1 - r];
    nextGrid[r][c] = block || null;
  }
  \<close>
\<close>

definition writeColumn :: "Block list \<Rightarrow> nat \<Rightarrow> Grid \<Rightarrow> Grid" where
  "writeColumn colBlocks c g =
     fold (\<lambda>r g'. g'[r := setCell (g' ! r) c
                            (if ROWS - 1 - r < length colBlocks
                             then Some (colBlocks ! (ROWS - 1 - r)) else None)])
          (rev [0..<ROWS]) g"

text \<open>
  The body of the loop over the columns, which runs the two inner loops on the same
  array, and the loop itself: \<^verbatim>\<open>for (let c = 0; c < COLS; c++) { ... }\<close>.
\<close>

definition compactColumn :: "Grid \<Rightarrow> nat \<Rightarrow> Grid" where
  "compactColumn g c = writeColumn (collectColumn g c) c g"

definition gravity :: "Grid \<Rightarrow> Grid" where
  "gravity g = fold (\<lambda>c g'. compactColumn g' c) [0..<COLS] g"

text \<open>
  \<^verbatim>\<open>row.map(cell => cell && ids.has(cell.id) ? null : cell)\<close>: the condition is
  \<^verbatim>\<open>(cell && ids.has(cell.id))\<close>, so an empty cell stays and a block stays unless its id is
  in \<open>ids\<close>.
\<close>

definition clearCell :: "string fset \<Rightarrow> Cell \<Rightarrow> Cell" where
  "clearCell ids cell =
     (case cell of
        None \<Rightarrow> None
      | Some b \<Rightarrow> if block_id b |\<in>| ids then None else Some b)"

text \<open>
  The updater that \<^verbatim>\<open>handleSuccess\<close> hands to \<^verbatim>\<open>setGrid\<close> (the spec's
  \<^verbatim>\<open>clearAndCompact\<close>): the map above over every row, then the gravity pass. The pass
  starts by reading \<^verbatim>\<open>nextGrid[ROWS - 1][0]\<close>, which throws when the array has fewer
  than \<open>ROWS\<close> rows.
\<close>

definition clearAndCompact :: "string fset \<Rightarrow> Grid \<Rightarrow> error + Grid" where
  "clearAndCompact ids prev =
     (let nextGrid = map (map (clearCell ids)) prev
      in if length nextGrid < ROWS then Inl TypeError else Inr (gravity nextGrid))"

section \<open>Handlers of the component\<close>

text \<open>
  \<^verbatim>\<open>initGrid\<close> builds \<^verbatim>\<open>Array.from({ length: ROWS }, () => Array(COLS).fill(null))\<close> and
  fills the bottom rows:
  \<^verbatim>\<open>
  for (let r = ROWS - INITIAL_ROWS; r < ROWS; r++) {
    for (let c = 0; c < COLS; c++) {
      newGrid[r][c] = generateBlock();
    }
  }
  \<close>
  The call for cell \<open>(r, c)\<close> is call number \<open>(r - (ROWS - INITIAL_ROWS)) * COLS + c\<close>.
  Every index is in range, so the writes are plain updates.
\<close>

definition fillRow :: "(nat \<Rightarrow> draw) \<Rightarrow> nat \<Rightarrow> Grid \<Rightarrow> Grid" where
  "fillRow bs r g =
     fold (\<lambda>c g'. g'[r := (g' ! r)[c :=
                     Some (generateBlock (bs ((r - (ROWS - INITIAL_ROWS)) * COLS + c)))]])
          [0..<COLS] g"

definition newGrid :: "(nat \<Rightarrow> draw) \<Rightarrow> Grid" where
  "newGrid bs =
     fold (fillRow bs) [ROWS - INITIAL_ROWS..<ROWS] (replicate ROWS (replicate COLS None))"

text \<open>
  \<^verbatim>\<open>
  setGrid(newGrid); generateTarget(); setScore(0); setIsGameOver(false);
  setSelectedIds(new Set()); setTimeLeft(TIME_MODE_INTERVAL); setIsProcessing(false);
  \<close>
\<close>

definition initGrid :: "(nat \<Rightarrow> draw) \<Rightarrow> real \<Rightarrow> game \<Rightarrow> game" where
  "initGrid bs u s =
     (generateTarget u (s\<lparr>grid := newGrid bs\<rparr>))
       \<lparr> score := 0, isGameOver := False, selectedIds := {||},
         timeLeft := TIME_MODE_INTERVAL, isProcessing := False \<rparr>"

text \<open>\<^verbatim>\<open>addRow\<close>: \<^verbatim>\<open>setGrid(prev => ...)\<close>, then \<^verbatim>\<open>setTimeLeft(TIME_MODE_INTERVAL)\<close>.\<close>

definition addRow :: "(nat \<Rightarrow> draw) \<Rightarrow> game \<Rightarrow> error + game" where
  "addRow bs s =
     (case injectRow bs (grid s) of
        Inl e \<Rightarrow> Inl e
      | Inr g \<Rightarrow> Inr (s\<lparr> grid := g, timeLeft := TIME_MODE_INTERVAL \<rparr>))"

text \<open>
  The effect on \<^verbatim>\<open>[grid]\<close>:
  \<^verbatim>\<open>if (grid.length > 0 && grid[0].some(cell => cell !== null)) setIsGameOver(true)\<close>,
  and the effect on \<^verbatim>\<open>[score, highScore]\<close>:
  \<^verbatim>\<open>if (score > highScore) setHighScore(score)\<close>.
\<close>

definition gameOverEffect :: "game \<Rightarrow> game" where
  "gameOverEffect s = (if isTopRowOccupied (grid s) then s\<lparr>isGameOver := True\<rparr> else s)"

definition highScoreEffect :: "game \<Rightarrow> game" where
  "highScoreEffect s = (if score s > highScore s then s\<lparr>highScore := score s\<rparr> else s)"

text \<open>
  What React does after a handler has taken the state from \<open>s\<close> to \<open>s'\<close>: the effect on
  the grid runs when the grid was replaced by a new array (\<open>replaced\<close>), the effect on the
  score when \<^verbatim>\<open>score\<close> or \<^verbatim>\<open>highScore\<close> changed.
\<close>

definition afterRender :: "bool \<Rightarrow> game \<Rightarrow> game \<Rightarrow> game" where
  "afterRender replaced s s' =
     (let s1 = (if replaced then gameOverEffect s' else s')
      in if score s1 \<noteq> score s \<or> highScore s1 \<noteq> highScore s
         then highScoreEffect s1 else s1)"

text \<open>
  The part of \<^verbatim>\<open>handleSuccess\<close> that runs at once:
  \<^verbatim>\<open>
  if (isProcessing) return;
  setIsProcessing(true); setClearingIds(ids); setScore(prev => prev + ids.size * 10);
  \<close>
\<close>

definition handleSuccess :: "string fset \<Rightarrow> game \<Rightarrow> game" where
  "handleSuccess ids s =
     (if isProcessing s then s
      else s\<lparr> isProcessing := True, clearingIds := ids,
              score := score s + int (fcard ids) * 10 \<rparr>)"

text \<open>
  The callback that \<^verbatim>\<open>handleSuccess\<close> schedules with \<^verbatim>\<open>setTimeout(..., 300)\<close>. It has
  captured \<open>ids\<close> and the mode \<open>m\<close> of the render it was created in, and runs on the state
  \<open>s\<close> of the time it fires:
  \<^verbatim>\<open>
  setGrid(prev => ...clear and gravity...);
  setClearingIds(new Set()); setSelectedIds(new Set()); generateTarget();
  setIsProcessing(false);
  if (mode === 'classic') addRow();
  \<close>
  The two updaters of the grid run in the order they were queued.
\<close>

definition handleSuccessTimeout ::
  "string fset \<Rightarrow> GameMode \<Rightarrow> (nat \<Rightarrow> draw) \<Rightarrow> real \<Rightarrow> game \<Rightarrow> error + game" where
  "handleSuccessTimeout ids m bs u s =
     (case clearAndCompact ids (grid s) of
        Inl e \<Rightarrow> Inl e
      | Inr g \<Rightarrow>
          let s1 = (generateTarget u (s\<lparr> grid := g, clearingIds := {||},
                                          selectedIds := {||} \<rparr>))
                     \<lparr>isProcessing := False\<rparr>
          in if m = Classic then addRow bs s1 else Inr s1)"

text \<open>
  \<^verbatim>\<open>handleBlockClick\<close>. The sum runs over \<^verbatim>\<open>grid.flat()\<close>:
  \<^verbatim>\<open>
  let currentSum = 0;
  grid.flat().forEach(b => { if (b && newSelected.has(b.id)) currentSum += b.value; });
  \<close>
\<close>

definition toggleId :: "string \<Rightarrow> string fset \<Rightarrow> string fset" where
  "toggleId i sel = (if i |\<in>| sel then sel |-| {|i|} else finsert i sel)"

definition currentSum :: "Grid \<Rightarrow> string fset \<Rightarrow> int" where
  "currentSum g sel =
     fold (\<lambda>b acc. case b of
                      None \<Rightarrow> acc
                    | Some t \<Rightarrow> if block_id t |\<in>| sel then acc + block_value t else acc)
          (concat g) 0"

definition handleBlockClick :: "Block \<Rightarrow> game \<Rightarrow> game" where
  "handleBlockClick block s =
     (if isGameOver s \<or> isPaused s \<or> block_id block |\<in>| clearingIds s \<or> isProcessing s
      then s
      else
        let newSelected = toggleId (block_id block) (selectedIds s);
            csum = currentSum (grid s) newSelected
        in if csum = target s then handleSuccess newSelected s
           else if csum > target s then s\<lparr>selectedIds := {||}\<rparr>
           else s\<lparr>selectedIds := newSelected\<rparr>)"

text \<open>
  \<^verbatim>\<open>startGame\<close> and \<^verbatim>\<open>resetGame\<close>:
  \<^verbatim>\<open>
  const startGame = (selectedMode) => { setMode(selectedMode); setGameStarted(true); initGrid(); };
  const resetGame = () => { initGrid(); };
  \<close>
\<close>

definition startGame :: "GameMode \<Rightarrow> (nat \<Rightarrow> draw) \<Rightarrow> real \<Rightarrow> game \<Rightarrow> game" where
  "startGame selectedMode bs u s = initGrid bs u (s\<lparr> mode := selectedMode, gameStarted := True \<rparr>)"

definition resetGame :: "(nat \<Rightarrow> draw) \<Rightarrow> real \<Rightarrow> game \<Rightarrow> game" where
  "resetGame bs u s = initGrid bs u s"

text \<open>
  The callback of the interval, which exists while
  \<^verbatim>\<open>gameStarted && mode === 'time' && !isGameOver && !isPaused\<close> and fires every 100 ms:
  \<^verbatim>\<open>
  setTimeLeft(prev => {
    if (prev <= 100) { addRow(); return TIME_MODE_INTERVAL; }
    return prev - 100;
  });
  \<close>
\<close>

definition timerActive :: "game \<Rightarrow> bool" where
  "timerActive s \<longleftrightarrow> gameStarted s \<and> mode s = Time \<and> \<not> isGameOver s \<and> \<not> isPaused s"

definition timerTick :: "(nat \<Rightarrow> draw) \<Rightarrow> game \<Rightarrow> error + game" where
  "timerTick bs s =
     (if timeLeft s \<le> 100
      then (case addRow bs s of
              Inl e \<Rightarrow> Inl e
            | Inr s' \<Rightarrow> Inr (s'\<lparr>timeLeft := TIME_MODE_INTERVAL\<rparr>))
      else Inr (s\<lparr>timeLeft := timeLeft s - 100\<rparr>))"

section \<open>Events\<close>

text \<open>
  What can happen to the mounted component: a click on a mode button of the menu
  (\<^verbatim>\<open>startGame\<close>), on the reset button (\<^verbatim>\<open>resetGame\<close>), on a block of the grid
  (\<^verbatim>\<open>handleBlockClick\<close>), the callback of a \<^verbatim>\<open>setTimeout\<close> of \<^verbatim>\<open>handleSuccess\<close> with the
  ids and the mode it captured, a callback of the interval, a click on the pause button
  (\<^verbatim>\<open>setIsPaused(!isPaused)\<close>), on the button of the pause overlay
  (\<^verbatim>\<open>setIsPaused(false)\<close>) and on a menu button (\<^verbatim>\<open>setGameStarted(false)\<close>). Each event
  carries the random draws its handler consumes.
\<close>

datatype event =
    Start GameMode "nat \<Rightarrow> draw" real
  | Reset "nat \<Rightarrow> draw" real
  | Click Block
  | Resolve "string fset" GameMode "nat \<Rightarrow> draw" real
  | Tick "nat \<Rightarrow> draw"
  | TogglePause
  | Resume
  | Menu

text \<open>
  One event, with the render and the effects that follow it. The menu is rendered while
  \<^verbatim>\<open>!gameStarted\<close> and the game page otherwise, so an event whose button or block is not
  on the page, and a tick while the interval is cleared, leave the state as it is.
  \<^verbatim>\<open>initGrid\<close> and the updater of \<^verbatim>\<open>handleSuccess\<close> always store a new array; the updater
  of \<^verbatim>\<open>addRow\<close> returns \<^verbatim>\<open>prev\<close> itself when row 0 holds a block, and then the effect on
  \<^verbatim>\<open>[grid]\<close> does not run.
\<close>

fun step :: "event \<Rightarrow> game \<Rightarrow> error + game" where
  "step (Start m bs u) s =
     (if gameStarted s then Inr s else Inr (afterRender True s (startGame m bs u s)))"
| "step (Reset bs u) s =
     (if gameStarted s then Inr (afterRender True s (resetGame bs u s)) else Inr s)"
| "step (Click b) s =
     (if gameStarted s \<and> Some b \<in> set (concat (grid s))
      then Inr (afterRender False s (handleBlockClick b s)) else Inr s)"
| "step (Resolve ids m bs u) s =
     (case handleSuccessTimeout ids m bs u s of
        Inl e \<Rightarrow> Inl e
      | Inr s' \<Rightarrow> Inr (afterRender True s s'))"
| "step (Tick bs) s =
     (if timerActive s
      then (case timerTick bs s of
              Inl e \<Rightarrow> Inl e
            | Inr s' \<Rightarrow>
                Inr (afterRender (timeLeft s \<le> 100 \<and> \<not> isTopRowOccupied (grid s)) s s'))
      else Inr s)"
| "step TogglePause s =
     (if gameStarted s then Inr (s\<lparr>isPaused := \<not> isPaused s\<rparr>) else Inr s)"
| "step Resume s =
     (if gameStarted s \<and> isPaused s then Inr (s\<lparr>isPaused := False\<rparr>) else Inr s)"
| "step Menu s =
     (if gameStarted s then Inr (s\<lparr>gameStarted := False\<rparr>) else Inr s)"

text \<open>Consecutive callbacks of the interval, one list element of draws for each.\<close>

fun runTicks :: "(nat \<Rightarrow> draw) list \<Rightarrow> game \<Rightarrow> error + game" where
  "runTicks [] s = Inr s"
| "runTicks (bs # rest) s =
     (case step (Tick bs) s of Inl e \<Rightarrow> Inl e | Inr s' \<Rightarrow> runTicks rest s')"

text \<open>
  The state of the \<^verbatim>\<open>useState\<close> initialisers, with the high score \<open>hs\<close> that the mount
  effect has read from the storage (0 when there is none), and the states that sequences of
  events lead to from it. A \<open>Resolve\<close> event may carry any ids and mode: the states reached
  include those the page can be in.
\<close>

definition initial :: "int \<Rightarrow> game" where
  "initial hs =
     \<lparr> grid = [], target = 0, selectedIds = {||}, score = 0, highScore = hs,
       isGameOver = False, gameStarted = False, mode = Classic,
       timeLeft = TIME_MODE_INTERVAL, isPaused = False, clearingIds = {||},
       isProcessing = False \<rparr>"

inductive reachable :: "game \<Rightarrow> bool" where
  reachable_initial: "reachable (initial hs)"
| reachable_step: "reachable s \<Longrightarrow> step e s = Inr s' \<Longrightarrow> reachable s'"

section \<open>Notions used in the statements\<close>

text \<open>
  A grid as the data model has it: \<open>ROWS\<close> rows of \<open>COLS\<close> cells. \<^verbatim>\<open>initGrid\<close> builds such
  a grid and the two updaters keep the shape.
\<close>

definition wfGrid :: "Grid \<Rightarrow> bool" where
  "wfGrid g \<longleftrightarrow> length g = ROWS \<and> list_all (\<lambda>row. length row = COLS) g"

text \<open>
  A row of empty cells, and the \<open>k\<close>-th of the rows that \<^verbatim>\<open>initGrid\<close> fills, from the
  draws of its calls of \<^verbatim>\<open>generateBlock\<close>.
\<close>

definition emptyRow :: "Cell list" where
  "emptyRow = replicate COLS None"

definition filledRow :: "(nat \<Rightarrow> draw) \<Rightarrow> nat \<Rightarrow> Cell list" where
  "filledRow bs k = map (\<lambda>c. Some (generateBlock (bs (k * COLS + c)))) [0..<COLS]"

text \<open>The blocks of a list of cells, in the order of the list.\<close>

fun somes :: "'a option list \<Rightarrow> 'a list" where
  "somes [] = []"
| "somes (None # xs) = somes xs"
| "somes (Some x # xs) = x # somes xs"

text \<open>Column \<open>c\<close> of a grid from top to bottom, and all the blocks of a grid.\<close>

definition columnOf :: "Grid \<Rightarrow> nat \<Rightarrow> Cell list" where
  "columnOf g c = map (\<lambda>row. cellAt row c) g"

definition tiles :: "Grid \<Rightarrow> Block list" where
  "tiles g = somes (concat g)"

text \<open>
  A column after gravity: its blocks in the same order at the bottom, the empty cells
  above them.
\<close>

definition settle :: "Cell list \<Rightarrow> Cell list" where
  "settle col = replicate (length col - length (somes col)) None @ map Some (somes col)"

text \<open>
  A column without an empty cell below a block, and a grid all of whose columns are so.
\<close>

fun settledColumn :: "Cell list \<Rightarrow> bool" where
  "settledColumn [] = True"
| "settledColumn (None # col) = settledColumn col"
| "settledColumn (Some b # col) = list_all (\<lambda>cell. cell \<noteq> None) col"

definition settledGrid :: "Grid \<Rightarrow> bool" where
  "settledGrid g = list_all (\<lambda>c. settledColumn (columnOf g c)) [0..<COLS]"

text \<open>
  The grids that an event leaves right after each call of the two updaters: the result
  of clearing and compaction, and the result of the row injection after it in classic mode,
  for the callback of \<^verbatim>\<open>handleSuccess\<close>; the result of the row injection for the tick that
  calls \<^verbatim>\<open>addRow\<close>.
\<close>

fun checkpoints :: "event \<Rightarrow> game \<Rightarrow> Grid list" where
  "checkpoints (Resolve ids m bs u) s =
     (case clearAndCompact ids (grid s) of
        Inl e \<Rightarrow> []
      | Inr g1 \<Rightarrow>
          g1 # (if m = Classic
                then (case injectRow bs g1 of Inl e \<Rightarrow> [] | Inr g2 \<Rightarrow> [g2])
                else []))"
| "checkpoints (Tick bs) s =
     (if timerActive s \<and> timeLeft s \<le> 100
      then (case injectRow bs (grid s) of Inl e \<Rightarrow> [] | Inr g \<Rightarrow> [g])
      else [])"
| "checkpoints e s = []"

text \<open>
  The spec's phase \<^verbatim>\<open>playing\<close>: the round has started and is neither over, paused nor
  resolving a match.
\<close>

definition playing :: "game \<Rightarrow> bool" where
  "playing s \<longleftrightarrow> gameStarted s \<and> \<not> isGameOver s \<and> \<not> isPaused s \<and> \<not> isProcessing s"

text \<open>
  What holds in every state that events lead to: a grid with a block in row 0 belongs to
  a round that is over; the grid is empty or has \<open>ROWS\<close> by \<open>COLS\<close> cells, and it has
  them once the round has started.
\<close>

definition roundInv :: "game \<Rightarrow> bool" where
  "roundInv s \<longleftrightarrow>
     (isTopRowOccupied (grid s) \<longrightarrow> isGameOver s) \<and>
     (grid s = [] \<or> wfGrid (grid s)) \<and> (gameStarted s \<longrightarrow> wfGrid (grid s))"

section \<open>Example grids and draws\<close>

text \<open>A block with a given id and value.\<close>

definition mkBlock :: "string \<Rightarrow> int \<Rightarrow> Block" where
  "mkBlock i v = \<lparr> block_id = i, block_value = v, isSelected = False \<rparr>"

text \<open>A grid with two rows of blocks at the bottom.\<close>

definition sampleGrid :: Grid where
  "sampleGrid = replicate 8 emptyRow @
     [[Some (mkBlock ''e'' 4), None, None, None, None, Some (mkBlock ''g'' 1)],
      [Some (mkBlock ''a'' 3), Some (mkBlock ''b'' 7), Some (mkBlock ''c'' 5),
       Some (mkBlock ''d'' 2), Some (mkBlock ''f'' 6), Some (mkBlock ''h'' 9)]]"

text \<open>A grid whose top row holds a block.\<close>

definition toppedGrid :: Grid where
  "toppedGrid = [Some (mkBlock ''t'' 2), None, None, None, None, None] # tl sampleGrid"

text \<open>
  The texts in base 36 of the doubles \<open>1/2\<close>, \<open>1/4\<close>, ..., \<open>1/2 ^ 24\<close>, whose expansions
  in base 36 are finite.
\<close>

definition sampleTexts :: "string list" where
  "sampleTexts =
     [''0.i'', ''0.9'', ''0.4i'', ''0.29'', ''0.14i'', ''0.0k9'', ''0.0a4i'', ''0.0529'',
      ''0.02j4i'', ''0.019k9'', ''0.00ms4i'', ''0.00be29'', ''0.005p14i'', ''0.002uik9'',
      ''0.001f9a4i'', ''0.000pmn29'', ''0.000ctbj4i'', ''0.0006enrk9'', ''0.00037bvs4i'',
      ''0.0001lnxw29'', ''0.0000styy14i'', ''0.0000eezh0k9'', ''0.000077hqia4i'',
      ''0.00003lqv9529'']"

text \<open>
  Draws for the calls of \<^verbatim>\<open>generateBlock\<close>. In \<open>sampleDraws\<close> the first draw of call
  \<open>k\<close> is \<open>1/2 ^ (k mod 24 + 1)\<close> and the second \<open>1/2\<close>; in \<open>sameDraws\<close> both draws of
  every call are \<open>1/2\<close>; \<open>dupDraws\<close> has the draws of \<open>sameDraws\<close> in the first two
  calls and those of \<open>sampleDraws\<close> in the later ones.
\<close>

definition sampleDraws :: "nat \<Rightarrow> draw" where
  "sampleDraws k = \<lparr> id_text = sampleTexts ! (k mod 24), mantissa = 2 ^ 52, exponent = 53 \<rparr>"

definition sameDraws :: "nat \<Rightarrow> draw" where
  "sameDraws k = \<lparr> id_text = ''0.i'', mantissa = 2 ^ 52, exponent = 53 \<rparr>"

definition dupDraws :: "nat \<Rightarrow> draw" where
  "dupDraws k = (if k < 2 then sameDraws k else sampleDraws k)"

text \<open>A state of a started round in classic mode, on the sample grid.\<close>

definition sampleState :: game where
  "sampleState =
     \<lparr> grid = sampleGrid, target = 15, selectedIds = {||}, score = 0, highScore = 0,
       isGameOver = False, gameStarted = True, mode = Classic, timeLeft = 8000,
       isPaused = False, clearingIds = {||}, isProcessing = False \<rparr>"

text \<open>
  The grid of a new round after \<open>k\<close> row injections, and the state of a round in classic
  mode on it.
\<close>

definition stackGrid :: "nat \<Rightarrow> Grid" where
  "stackGrid k =
     replicate (7 - k) emptyRow @
     [filledRow sampleDraws 0, filledRow sampleDraws 1, filledRow sampleDraws 2] @
     replicate k (freshRow sampleDraws)"

definition stackState :: "nat \<Rightarrow> game" where
  "stackState k =
     \<lparr> grid = stackGrid k, target = 18, selectedIds = {||}, score = 0, highScore = 0,
       isGameOver = False, gameStarted = True, mode = Classic, timeLeft = 8000,
       isPaused = False, clearingIds = {||}, isProcessing = False \<rparr>"

text \<open>
  The round that \<^verbatim>\<open>startGame\<close> builds in classic mode from the draws \<open>dupDraws\<close> and the
  draw 0 for the target, and the same round after a click on its first block.
\<close>

definition dupState :: game where
  "dupState =
     \<lparr> grid = newGrid dupDraws, target = 10, selectedIds = {||}, score = 0, highScore = 0,
       isGameOver = False, gameStarted = True, mode = Classic, timeLeft = 8000,
       isPaused = False, clearingIds = {||}, isProcessing = False \<rparr>"

definition dupMatched :: game where
  "dupMatched =
     dupState\<lparr> isProcessing := True, clearingIds := {|''i''|}, score := 10, highScore := 10 \<rparr>"

declare generateTarget_def [simp]

declare extraBits.simps [simp del]

section \<open>Row injection\<close>

lemma injectRow_suppressed:
  "isTopRowOccupied g \<Longrightarrow> injectRow bs g = Inr g"
  by (cases g) (simp_all add: injectRow_def isTopRowOccupied_def)

lemma injectRow_shift:
  assumes "length g = ROWS" "\<not> isTopRowOccupied g"
  shows "injectRow bs g = Inr (tl g @ [freshRow bs])"
proof -
  from assms obtain row0 rest where g: "g = row0 # rest" by (cases g) (auto simp: ROWS_def)
  have no: "\<not> rowOccupied row0" using assms g by (simp add: isTopRowOccupied_def)
  have len: "length rest = ROWS - 1" using assms g by simp
  have m: "map (\<lambda>i. if i = ROWS - 1 then freshRow bs else g ! (i + 1)) [0..<length g]
        = tl g @ [freshRow bs]"
    by (rule nth_equalityI) (use assms g len in \<open>auto simp: nth_append nth_tl\<close>)
  have "injectRow bs g =
        Inr (map (\<lambda>i. if i = ROWS - 1 then freshRow bs else g ! (i + 1)) [0..<length g])"
    using no assms(1) by (simp add: injectRow_def g)
  thus ?thesis by (simp only: m)
qed

lemma freshRow_props: "length (freshRow bs) = COLS" "list_all (\<lambda>c. c \<noteq> None) (freshRow bs)"
  "c < COLS \<Longrightarrow> freshRow bs ! c = Some (generateBlock (bs c))"
  by (simp_all add: freshRow_def list_all_iff)

text \<open>
  C2. The updater of \<^verbatim>\<open>addRow\<close> returns the grid it was given when row 0 holds a block.
  On a grid of \<open>ROWS\<close> rows whose row 0 is empty it returns a grid of \<open>ROWS\<close> rows in which
  row \<open>i\<close>, for \<open>i < ROWS - 1\<close>, is the former row \<open>i + 1\<close>, and the bottom row is a new row
  of \<open>COLS\<close> blocks, each made by \<^verbatim>\<open>generateBlock\<close>.
\<close>

theorem injectRow_spec:
  "(isTopRowOccupied g \<longrightarrow> injectRow bs g = Inr g) \<and>
   (length g = ROWS \<and> \<not> isTopRowOccupied g \<longrightarrow>
      (\<exists>g'. injectRow bs g = Inr g' \<and> length g' = ROWS \<and>
            (\<forall>i < ROWS - 1. g' ! i = g ! (i + 1)) \<and>
            g' ! (ROWS - 1) = freshRow bs \<and>
            length (g' ! (ROWS - 1)) = COLS \<and>
            (\<forall>c < COLS. g' ! (ROWS - 1) ! c = Some (generateBlock (bs c)))))"
proof (intro conjI impI)
  assume "isTopRowOccupied g" thus "injectRow bs g = Inr g" by (rule injectRow_suppressed)
next
  assume a: "length g = ROWS \<and> \<not> isTopRowOccupied g"
  hence e: "injectRow bs g = Inr (tl g @ [freshRow bs])" by (simp add: injectRow_shift)
  show "\<exists>g'. injectRow bs g = Inr g' \<and> length g' = ROWS \<and>
            (\<forall>i < ROWS - 1. g' ! i = g ! (i + 1)) \<and>
            g' ! (ROWS - 1) = freshRow bs \<and>
            length (g' ! (ROWS - 1)) = COLS \<and>
            (\<forall>c < COLS. g' ! (ROWS - 1) ! c = Some (generateBlock (bs c)))"
    using a unfolding e by (auto simp: nth_append nth_tl freshRow_props ROWS_def)
qed

theorem injectRow_spec_witness:
  "isTopRowOccupied toppedGrid \<and> injectRow sampleDraws toppedGrid = Inr toppedGrid \<and>
   length sampleGrid = ROWS \<and> \<not> isTopRowOccupied sampleGrid \<and>
   (\<exists>g'. injectRow sampleDraws sampleGrid = Inr g' \<and>
         g' ! 8 = sampleGrid ! 9 \<and> g' ! 9 = freshRow sampleDraws)"
proof -
  have t: "isTopRowOccupied toppedGrid" by code_simp
  have l: "length sampleGrid = ROWS" by code_simp
  have e: "\<not> isTopRowOccupied sampleGrid" by code_simp
  from injectRow_spec [of toppedGrid sampleDraws] t
  have 1: "injectRow sampleDraws toppedGrid = Inr toppedGrid" by blast
  from injectRow_spec [of sampleGrid sampleDraws] l e
  obtain g' where g': "injectRow sampleDraws sampleGrid = Inr g'"
      "\<forall>i < ROWS - 1. g' ! i = sampleGrid ! (i + 1)" "g' ! (ROWS - 1) = freshRow sampleDraws"
    by blast
  have "g' ! 8 = sampleGrid ! (8 + 1)" using g'(2) by (simp add: ROWS_def)
  hence "g' ! 8 = sampleGrid ! 9" by simp
  moreover have "g' ! 9 = freshRow sampleDraws" using g'(3) by (simp add: ROWS_def)
  ultimately show ?thesis using t l e 1 g'(1) by blast
qed

text \<open>
  C10. \<^verbatim>\<open>addRow\<close> sets \<^verbatim>\<open>timeLeft\<close> to 8000 whenever it returns, and it returns on every
  grid of \<open>ROWS\<close> rows and on every grid whose row 0 holds a block; in the latter case the
  grid is the one it was given.
\<close>

theorem addRow_resets_timeLeft:
  "(\<forall>s'. addRow bs s = Inr s' \<longrightarrow> timeLeft s' = 8000) \<and>
   (isTopRowOccupied (grid s) \<longrightarrow>
      (\<exists>s'. addRow bs s = Inr s' \<and> grid s' = grid s \<and> timeLeft s' = 8000)) \<and>
   (length (grid s) = ROWS \<longrightarrow> (\<exists>s'. addRow bs s = Inr s' \<and> timeLeft s' = 8000))"
proof (intro conjI impI allI)
  fix s' assume "addRow bs s = Inr s'"
  thus "timeLeft s' = 8000"
    by (auto simp: addRow_def TIME_MODE_INTERVAL_def split: sum.splits)
next
  assume "isTopRowOccupied (grid s)"
  thus "\<exists>s'. addRow bs s = Inr s' \<and> grid s' = grid s \<and> timeLeft s' = 8000"
    by (simp add: addRow_def injectRow_suppressed TIME_MODE_INTERVAL_def)
next
  assume l: "length (grid s) = ROWS"
  show "\<exists>s'. addRow bs s = Inr s' \<and> timeLeft s' = 8000"
  proof (cases "isTopRowOccupied (grid s)")
    case True
    thus ?thesis by (simp add: addRow_def injectRow_suppressed TIME_MODE_INTERVAL_def)
  next
    case False
    thus ?thesis using l by (simp add: addRow_def injectRow_shift TIME_MODE_INTERVAL_def)
  qed
qed

theorem addRow_resets_timeLeft_witness:
  "isTopRowOccupied (grid (sampleState\<lparr>grid := toppedGrid, timeLeft := 100\<rparr>)) \<and>
   (\<exists>s'. addRow sampleDraws (sampleState\<lparr>grid := toppedGrid, timeLeft := 100\<rparr>) = Inr s' \<and>
         grid s' = toppedGrid \<and> timeLeft s' = 8000)"
proof -
  have t: "isTopRowOccupied (grid (sampleState\<lparr>grid := toppedGrid, timeLeft := 100\<rparr>))"
    by code_simp
  from addRow_resets_timeLeft [of sampleDraws "sampleState\<lparr>grid := toppedGrid, timeLeft := 100\<rparr>"] t
  show ?thesis by simp
qed

section \<open>Gravity\<close>

lemma wfGrid_nth: "wfGrid g \<Longrightarrow> r < ROWS \<Longrightarrow> length (g ! r) = COLS"
  by (simp add: wfGrid_def list_all_length)

lemma wfGridI: "length g = ROWS \<Longrightarrow> (\<And>r. r < ROWS \<Longrightarrow> length (g ! r) = COLS) \<Longrightarrow> wfGrid g"
  by (simp add: wfGrid_def list_all_length)

lemma somes_append: "somes (xs @ ys) = somes xs @ somes ys"
  by (induction xs rule: somes.induct) simp_all

lemma length_somes: "length (somes xs) \<le> length xs"
  by (induction xs rule: somes.induct) simp_all

lemma somes_replicate_None: "somes (replicate n None) = []"
  by (induction n) simp_all

lemma somes_map_Some: "somes (map Some xs) = xs"
  by (induction xs) simp_all

lemma fold_update_rows:
  "distinct rs \<Longrightarrow> \<forall>r \<in> set rs. r < length g \<Longrightarrow>
   fold (\<lambda>r g'. g'[r := F r (g' ! r)]) rs g =
   map (\<lambda>r. if r \<in> set rs then F r (g ! r) else g ! r) [0..<length g]"
proof (induction rs arbitrary: g)
  case Nil
  show ?case by (simp add: map_nth)
next
  case (Cons r rs)
  let ?g1 = "g[r := F r (g ! r)]"
  have "fold (\<lambda>r g'. g'[r := F r (g' ! r)]) rs ?g1 =
        map (\<lambda>i. if i \<in> set rs then F i (?g1 ! i) else ?g1 ! i) [0..<length ?g1]"
    using Cons.prems by (intro Cons.IH) auto
  also have "\<dots> = map (\<lambda>i. if i \<in> set (r # rs) then F i (g ! i) else g ! i) [0..<length g]"
    using Cons.prems by (auto simp: nth_list_update)
  finally show ?case by simp
qed

lemma writeColumn_rows:
  assumes "ROWS \<le> length g"
  shows "writeColumn cb c g =
         map (\<lambda>r. if r < ROWS
                   then setCell (g ! r) c (if ROWS - 1 - r < length cb
                                           then Some (cb ! (ROWS - 1 - r)) else None)
                   else g ! r) [0..<length g]"
  unfolding writeColumn_def
  using fold_update_rows [of "rev [0..<ROWS]" g
      "\<lambda>r row. setCell row c (if ROWS - 1 - r < length cb then Some (cb ! (ROWS - 1 - r)) else None)"]
    assms
  by simp

lemma fold_collect:
  "fold (\<lambda>x acc. case h x of Some b \<Rightarrow> acc @ [b] | None \<Rightarrow> acc) (rev xs) [] = rev (somes (map h xs))"
proof (induction xs)
  case Nil show ?case by simp
next
  case (Cons x xs)
  thus ?case by (cases "h x") simp_all
qed

lemma collectColumn_eq:
  assumes "length g = ROWS"
  shows "collectColumn g c = rev (somes (columnOf g c))"
proof -
  have "map (\<lambda>r. cellAt (g ! r) c) [0..<ROWS] = columnOf g c"
    unfolding columnOf_def using assms by (intro nth_equalityI) simp_all
  thus ?thesis
    unfolding collectColumn_def
    using fold_collect [of "\<lambda>r. cellAt (g ! r) c" "[0..<ROWS]"] by simp
qed


lemma settle_length: "length (settle col) = length col"
  using length_somes [of col] by (simp add: settle_def)

lemma settle_nth:
  assumes "r < length col"
  shows "settle col ! r =
         (if length col - 1 - r < length (somes col)
          then Some (rev (somes col) ! (length col - 1 - r)) else None)"
proof -
  let ?n = "length (somes col)"
  have le: "?n \<le> length col" by (rule length_somes)
  show ?thesis
  proof (cases "length col - 1 - r < ?n")
    case True
    hence ge: "length col - ?n \<le> r" using assms by arith
    have "settle col ! r = Some (somes col ! (r - (length col - ?n)))"
      using ge assms le by (simp add: settle_def nth_append)
    moreover have "rev (somes col) ! (length col - 1 - r) = somes col ! (r - (length col - ?n))"
    proof -
      have "?n - Suc (length col - 1 - r) = r - (length col - ?n)"
        using True assms le by arith
      thus ?thesis using True by (simp add: rev_nth)
    qed
    ultimately show ?thesis using True by simp
  next
    case False
    hence "r < length col - ?n" using assms by arith
    thus ?thesis using False by (simp add: settle_def nth_append)
  qed
qed

lemma compactColumn_row:
  assumes "wfGrid g" "c < COLS" "r < ROWS"
  shows "compactColumn g c ! r = (g ! r)[c := settle (columnOf g c) ! r]"
proof -
  have len: "length g = ROWS" using assms by (simp add: wfGrid_def)
  have lc: "length (columnOf g c) = ROWS" using len by (simp add: columnOf_def)
  have row: "length (g ! r) = COLS" using assms by (simp add: wfGrid_nth)
  have "compactColumn g c ! r =
        setCell (g ! r) c (if ROWS - 1 - r < length (collectColumn g c)
                           then Some (collectColumn g c ! (ROWS - 1 - r)) else None)"
    unfolding compactColumn_def using assms len by (simp add: writeColumn_rows)
  also have "\<dots> = (g ! r)[c := settle (columnOf g c) ! r]"
    using assms row lc by (simp add: setCell_def collectColumn_eq [OF len] settle_nth)
  finally show ?thesis .
qed

lemma compactColumn_length: "wfGrid g \<Longrightarrow> length (compactColumn g c) = ROWS"
  by (simp add: compactColumn_def writeColumn_rows wfGrid_def)

lemma compactColumn_wf:
  assumes "wfGrid g" "c < COLS"
  shows "wfGrid (compactColumn g c)"
  using assms
  by (intro wfGridI) (simp_all add: compactColumn_length compactColumn_row wfGrid_nth)

lemma columnOf_nth: "r < length g \<Longrightarrow> columnOf g c ! r = cellAt (g ! r) c"
  by (simp add: columnOf_def)

lemma compactColumn_column:
  assumes "wfGrid g" "c < COLS"
  shows "columnOf (compactColumn g c) c' =
         (if c' = c then settle (columnOf g c) else columnOf g c')"
proof (rule nth_equalityI)
  have len: "length g = ROWS" using assms by (simp add: wfGrid_def)
  show "length (columnOf (compactColumn g c) c') =
        length (if c' = c then settle (columnOf g c) else columnOf g c')"
    using assms len by (simp add: columnOf_def compactColumn_length settle_length)
  fix r assume "r < length (columnOf (compactColumn g c) c')"
  hence r: "r < ROWS" using assms by (simp add: columnOf_def compactColumn_length)
  have row: "length (g ! r) = COLS" using assms r by (simp add: wfGrid_nth)
  show "columnOf (compactColumn g c) c' ! r =
        (if c' = c then settle (columnOf g c) else columnOf g c') ! r"
    using assms r len row
    by (simp add: columnOf_nth compactColumn_length compactColumn_row cellAt_def)
qed

lemma fold_compactColumn:
  "wfGrid g \<Longrightarrow> distinct cs \<Longrightarrow> \<forall>c \<in> set cs. c < COLS \<Longrightarrow>
   wfGrid (fold (\<lambda>c g'. compactColumn g' c) cs g) \<and>
   (\<forall>c'. columnOf (fold (\<lambda>c g'. compactColumn g' c) cs g) c' =
         (if c' \<in> set cs then settle (columnOf g c') else columnOf g c'))"
proof (induction cs arbitrary: g)
  case Nil
  thus ?case by simp
next
  case (Cons c cs)
  have wf1: "wfGrid (compactColumn g c)" using Cons.prems by (simp add: compactColumn_wf)
  have ih: "wfGrid (fold (\<lambda>c g'. compactColumn g' c) cs (compactColumn g c)) \<and>
   (\<forall>c'. columnOf (fold (\<lambda>c g'. compactColumn g' c) cs (compactColumn g c)) c' =
         (if c' \<in> set cs then settle (columnOf (compactColumn g c) c')
          else columnOf (compactColumn g c) c'))"
    using Cons.prems wf1 by (intro Cons.IH) simp_all
  have col: "\<And>c'. columnOf (compactColumn g c) c' =
         (if c' = c then settle (columnOf g c) else columnOf g c')"
    using Cons.prems by (simp add: compactColumn_column)
  show ?case using ih Cons.prems(2) by (auto simp: col)
qed

lemma gravity_columns:
  assumes "wfGrid g"
  shows "wfGrid (gravity g)"
    and "c < COLS \<Longrightarrow> columnOf (gravity g) c = settle (columnOf g c)"
proof -
  have g: "gravity g = fold (\<lambda>c g'. compactColumn g' c) [0..<COLS] g"
    by (simp add: gravity_def)
  show "wfGrid (gravity g)"
    unfolding g using fold_compactColumn [OF assms, of "[0..<COLS]"] by simp
  show "c < COLS \<Longrightarrow> columnOf (gravity g) c = settle (columnOf g c)"
    unfolding g using fold_compactColumn [OF assms, of "[0..<COLS]"] by simp
qed

lemma grid_eq_columns:
  assumes "wfGrid g" "wfGrid h" "\<And>c. c < COLS \<Longrightarrow> columnOf g c = columnOf h c"
  shows "g = h"
proof (rule nth_equalityI)
  show "length g = length h" using assms by (simp add: wfGrid_def)
  fix r assume "r < length g"
  hence r: "r < ROWS" using assms by (simp add: wfGrid_def)
  show "g ! r = h ! r"
  proof (rule nth_equalityI)
    show "length (g ! r) = length (h ! r)" using assms r by (simp add: wfGrid_nth)
    fix c assume "c < length (g ! r)"
    hence c: "c < COLS" using assms r by (simp add: wfGrid_nth)
    have lg: "length g = ROWS" and lh: "length h = ROWS"
      using assms by (simp_all add: wfGrid_def)
    have rg: "length (g ! r) = COLS" and rh: "length (h ! r) = COLS"
      using assms r by (simp_all add: wfGrid_nth)
    have "columnOf g c ! r = columnOf h c ! r" using assms(3) [OF c] by simp
    thus "g ! r ! c = h ! r ! c"
      using r c lg lh rg rh by (simp add: columnOf_nth cellAt_def)
  qed
qed

section \<open>Clearing and compaction\<close>

lemma clearCell_cellAt: "cellAt (map (clearCell ids) row) c = clearCell ids (cellAt row c)"
  by (simp add: cellAt_def clearCell_def)

lemma columnOf_clear:
  "columnOf (map (map (clearCell ids)) g) c = map (clearCell ids) (columnOf g c)"
  by (simp add: columnOf_def clearCell_cellAt)

lemma wfGrid_clear: "wfGrid g \<Longrightarrow> wfGrid (map (map (clearCell ids)) g)"
  by (simp add: wfGrid_def list_all_iff)

lemma somes_clear:
  "somes (map (clearCell ids) col) = filter (\<lambda>b. block_id b |\<notin>| ids) (somes col)"
  by (induction col rule: somes.induct) (simp_all add: clearCell_def)

lemma somes_settle: "somes (settle col) = somes col"
  by (simp add: settle_def somes_append somes_replicate_None somes_map_Some)

lemma settledColumn_append_None:
  "settledColumn (replicate n None @ col) = settledColumn col"
  by (induction n) simp_all

lemma settledColumn_map_Some: "settledColumn (map Some xs)"
  by (cases xs) (simp_all add: list_all_iff)

lemma settledColumn_settle: "settledColumn (settle col)"
  by (simp add: settle_def settledColumn_append_None settledColumn_map_Some)

lemma all_Some_settle:
  "list_all (\<lambda>cell. cell \<noteq> None) col \<Longrightarrow> map Some (somes col) = col"
  by (induction col rule: somes.induct) simp_all

lemma all_Some_length: "list_all (\<lambda>cell. cell \<noteq> None) col \<Longrightarrow> length (somes col) = length col"
  by (induction col rule: somes.induct) simp_all

lemma settled_settle: "settledColumn col \<Longrightarrow> settle col = col"
proof (induction col rule: settledColumn.induct)
  case 1
  show ?case by (simp add: settle_def)
next
  case (2 col)
  hence ih: "settle col = col" by simp
  have "length (somes col) \<le> length col" by (rule length_somes)
  hence "Suc (length col) - length (somes col) = Suc (length col - length (somes col))"
    by arith
  hence "settle (None # col) = None # settle col" by (simp add: settle_def)
  thus ?case by (simp add: ih)
next
  case (3 b col)
  thus ?case by (simp add: settle_def all_Some_settle all_Some_length)
qed

lemma settledColumn_below:
  "settledColumn col \<Longrightarrow> r < r' \<Longrightarrow> r' < length col \<Longrightarrow> col ! r \<noteq> None \<Longrightarrow> col ! r' \<noteq> None"
proof (induction col arbitrary: r r' rule: settledColumn.induct)
  case 1
  thus ?case by simp
next
  case (2 col)
  show ?case
  proof (cases r)
    case 0
    thus ?thesis using 2 by simp
  next
    case (Suc k)
    then obtain k' where k': "r' = Suc k'" using "2.prems"(2) by (cases r') auto
    from "2.IH" [of k k'] "2.prems" Suc k' show ?thesis by simp
  qed
next
  case (3 b col)
  from "3.prems" obtain k' where k': "r' = Suc k'" by (cases r') auto
  from "3.prems" k' show ?case by (simp add: list_all_length)
qed

lemma Some_in_somes: "Some b \<in> set xs \<longleftrightarrow> b \<in> set (somes xs)"
  by (induction xs rule: somes.induct) auto

lemma cell_in_column:
  assumes "wfGrid g" "Some b \<in> set (concat g)"
  shows "\<exists>c < COLS. b \<in> set (somes (columnOf g c))"
proof -
  from assms(2) obtain row where row: "row \<in> set g" "Some b \<in> set row" by auto
  then obtain r where r: "r < length g" "g ! r = row" by (auto simp: in_set_conv_nth)
  from row obtain c where c: "c < length row" "row ! c = Some b" by (auto simp: in_set_conv_nth)
  have "length row = COLS" using assms(1) row(1) by (simp add: wfGrid_def list_all_iff)
  hence cc: "c < COLS" using c by simp
  have "columnOf g c ! r = Some b" using r c by (simp add: columnOf_def cellAt_def)
  moreover have "r < length (columnOf g c)" using r by (simp add: columnOf_def)
  ultimately have "Some b \<in> set (columnOf g c)" by (metis nth_mem)
  thus ?thesis using cc by (auto simp: Some_in_somes)
qed

lemma clearAndCompact_columns:
  assumes "wfGrid g"
  shows "clearAndCompact ids g = Inr (gravity (map (map (clearCell ids)) g))"
    and "wfGrid (gravity (map (map (clearCell ids)) g))"
    and "c < COLS \<Longrightarrow> columnOf (gravity (map (map (clearCell ids)) g)) c =
           settle (map (clearCell ids) (columnOf g c))"
proof -
  have wf: "wfGrid (map (map (clearCell ids)) g)" using assms by (rule wfGrid_clear)
  show "clearAndCompact ids g = Inr (gravity (map (map (clearCell ids)) g))"
    using assms by (simp add: clearAndCompact_def wfGrid_def)
  show "wfGrid (gravity (map (map (clearCell ids)) g))" using wf by (rule gravity_columns(1))
  show "c < COLS \<Longrightarrow> columnOf (gravity (map (map (clearCell ids)) g)) c =
           settle (map (clearCell ids) (columnOf g c))"
    using gravity_columns(2) [OF wf] by (simp add: columnOf_clear)
qed

text \<open>
  C3. For every grid of \<open>ROWS\<close> by \<open>COLS\<close> cells and every set of ids, the updater of
  \<^verbatim>\<open>handleSuccess\<close> returns a grid of the same shape in which no block has an id of the
  set; in every column the blocks that survive are those of the column before, in the same
  order from top to bottom, they stand at the bottom of the column with the empty cells above
  them, so no empty cell is below a block; and the column of the result depends on the same
  column of the argument only.
\<close>

theorem clearAndCompact_spec:
  assumes "wfGrid g"
  shows "\<exists>g'. clearAndCompact ids g = Inr g' \<and> wfGrid g' \<and>
           (\<forall>b. Some b \<in> set (concat g') \<longrightarrow> block_id b |\<notin>| ids) \<and>
           (\<forall>c < COLS.
              somes (columnOf g' c) = filter (\<lambda>b. block_id b |\<notin>| ids) (somes (columnOf g c)) \<and>
              columnOf g' c = settle (map (clearCell ids) (columnOf g c)) \<and>
              (\<forall>r r'. r < r' \<and> r' < ROWS \<and> g' ! r ! c \<noteq> None \<longrightarrow> g' ! r' ! c \<noteq> None)) \<and>
           (\<forall>h c. wfGrid h \<and> c < COLS \<and> columnOf h c = columnOf g c \<longrightarrow>
              (\<exists>h'. clearAndCompact ids h = Inr h' \<and> columnOf h' c = columnOf g' c))"
proof -
  let ?g' = "gravity (map (map (clearCell ids)) g)"
  note cc = clearAndCompact_columns [OF assms, where ids = ids]
  have col: "\<And>c. c < COLS \<Longrightarrow> columnOf ?g' c = settle (map (clearCell ids) (columnOf g c))"
    by (rule cc(3))
  have surv: "\<And>c. c < COLS \<Longrightarrow>
      somes (columnOf ?g' c) = filter (\<lambda>b. block_id b |\<notin>| ids) (somes (columnOf g c))"
    by (simp add: col somes_settle somes_clear)
  have ids: "\<forall>b. Some b \<in> set (concat ?g') \<longrightarrow> block_id b |\<notin>| ids"
  proof (intro allI impI)
    fix b assume "Some b \<in> set (concat ?g')"
    then obtain c where "c < COLS" "b \<in> set (somes (columnOf ?g' c))"
      using cell_in_column [OF cc(2)] by blast
    thus "block_id b |\<notin>| ids" by (simp add: surv)
  qed
  have below: "\<And>c r r'. c < COLS \<Longrightarrow> r < r' \<Longrightarrow> r' < ROWS \<Longrightarrow> ?g' ! r ! c \<noteq> None
                 \<Longrightarrow> ?g' ! r' ! c \<noteq> None"
  proof -
    fix c r r' assume a: "c < COLS" "r < r'" "r' < ROWS" "?g' ! r ! c \<noteq> None"
    have len: "length ?g' = ROWS" using cc(2) by (simp add: wfGrid_def)
    have rows: "length (?g' ! r) = COLS" "length (?g' ! r') = COLS"
      using cc(2) a by (simp_all add: wfGrid_nth)
    have st: "settledColumn (columnOf ?g' c)" using a(1) by (simp add: col settledColumn_settle)
    have "columnOf ?g' c ! r \<noteq> None"
      using a len rows by (simp add: columnOf_nth cellAt_def)
    hence "columnOf ?g' c ! r' \<noteq> None"
      using settledColumn_below [OF st a(2)] a(3) len by (simp add: columnOf_def)
    thus "?g' ! r' ! c \<noteq> None" using a len rows by (simp add: columnOf_nth cellAt_def)
  qed
  have indep: "\<forall>h c. wfGrid h \<and> c < COLS \<and> columnOf h c = columnOf g c \<longrightarrow>
              (\<exists>h'. clearAndCompact ids h = Inr h' \<and> columnOf h' c = columnOf ?g' c)"
  proof (intro allI impI)
    fix h c assume h: "wfGrid h \<and> c < COLS \<and> columnOf h c = columnOf g c"
    note hc = clearAndCompact_columns [where g = h and ids = ids]
    show "\<exists>h'. clearAndCompact ids h = Inr h' \<and> columnOf h' c = columnOf ?g' c"
      using h hc(1) hc(3) [of c] col [of c] by simp
  qed
  show ?thesis
    using cc(1) cc(2) ids surv col below indep by (intro exI [of _ ?g']) blast
qed

theorem clearAndCompact_spec_witness:
  "wfGrid sampleGrid \<and>
   (\<exists>g'. clearAndCompact {|''a'', ''b''|} sampleGrid = Inr g' \<and>
         (\<forall>b. Some b \<in> set (concat g') \<longrightarrow> block_id b |\<notin>| {|''a'', ''b''|}) \<and>
         somes (columnOf g' 0) = [mkBlock ''e'' 4])"
proof -
  have wf: "wfGrid sampleGrid" by code_simp
  have c: "(0::nat) < COLS" by (simp add: COLS_def)
  have s: "filter (\<lambda>b. block_id b |\<notin>| {|''a'', ''b''|}) (somes (columnOf sampleGrid 0)) = [mkBlock ''e'' 4]"
    by code_simp
  from clearAndCompact_spec [OF wf, of "{|''a'', ''b''|}"] c s wf show ?thesis
    by metis
qed

section \<open>Gravity on a settled grid\<close>

lemma clearCell_empty: "map (clearCell {||}) col = col"
  by (induction col) (simp_all add: clearCell_def split: option.splits)

lemma settledGrid_column: "settledGrid g \<Longrightarrow> c < COLS \<Longrightarrow> settledColumn (columnOf g c)"
  by (simp add: settledGrid_def list_all_iff)

lemma gravity_settled:
  assumes "wfGrid g" "settledGrid g"
  shows "gravity g = g"
proof (rule grid_eq_columns)
  show "wfGrid (gravity g)" using assms(1) by (rule gravity_columns(1))
  show "wfGrid g" by (rule assms(1))
  fix c assume "c < COLS"
  thus "columnOf (gravity g) c = columnOf g c"
    using assms by (simp add: gravity_columns(2) settled_settle settledGrid_column)
qed

lemma clearAndCompact_settled:
  assumes "wfGrid g"
  shows "settledGrid (gravity (map (map (clearCell ids)) g))"
  using clearAndCompact_columns(3) [OF assms]
  by (simp add: settledGrid_def list_all_iff settledColumn_settle)

lemma clear_nothing:
  assumes "\<forall>b. Some b \<in> set (concat g) \<longrightarrow> block_id b |\<notin>| ids"
  shows "map (map (clearCell ids)) g = g"
proof -
  have "\<And>row. row \<in> set g \<Longrightarrow> map (clearCell ids) row = row"
  proof -
    fix row assume r: "row \<in> set g"
    have "\<And>cell. cell \<in> set row \<Longrightarrow> clearCell ids cell = cell"
      using assms r by (auto simp: clearCell_def split: option.splits)
    thus "map (clearCell ids) row = row" by (simp add: map_idI)
  qed
  thus ?thesis by (simp add: map_idI)
qed

section \<open>Tiles and targets\<close>

lemma floor_scaled:
  assumes "unit_interval u" "0 < n"
  shows "0 \<le> \<lfloor>u * real_of_int n\<rfloor> \<and> \<lfloor>u * real_of_int n\<rfloor> \<le> n - 1"
proof -
  have u: "0 \<le> u" "u < 1" using assms by (simp_all add: unit_interval_def)
  have n: "0 < real_of_int n" using assms by simp
  have "0 \<le> u * real_of_int n" using u n by simp
  hence lo: "0 \<le> \<lfloor>u * real_of_int n\<rfloor>" by simp
  have "u * real_of_int n < 1 * real_of_int n" using u n by (intro mult_strict_right_mono) simp_all
  hence "u * real_of_int n < real_of_int n" by simp
  hence "\<lfloor>u * real_of_int n\<rfloor> < n" by (simp add: floor_less_iff)
  thus ?thesis using lo by simp
qed

lemma nextTarget_range:
  "unit_interval u \<Longrightarrow> 10 \<le> nextTarget u \<and> nextTarget u \<le> 25"
  using floor_scaled [of u "TARGET_MAX - TARGET_MIN + 1"]
  by (simp add: nextTarget_def TARGET_MAX_def TARGET_MIN_def)

lemma somes_map_Some_fun: "somes (map (\<lambda>x. Some (f x)) xs) = map f xs"
  by (induction xs) simp_all

lemma extraBits_le: "n < 2 ^ (53 + j) \<Longrightarrow> extraBits n \<le> j"
proof (induction j arbitrary: n)
  case 0
  thus ?case by (simp add: extraBits.simps [of n])
next
  case (Suc j)
  show ?case
  proof (cases "n < 2 ^ 53")
    case True
    thus ?thesis by (simp add: extraBits.simps [of n])
  next
    case False
    have "n < 2 ^ (53 + j) * 2" using Suc.prems by (metis add_Suc_right power_Suc mult.commute)
    hence "n div 2 < 2 ^ (53 + j)" by (rule less_mult_imp_div_less)
    hence "extraBits (n div 2) \<le> j" by (rule Suc.IH)
    thus ?thesis using False by (simp add: extraBits.simps [of n])
  qed
qed

lemma roundToDouble_le: "roundToDouble n \<le> n + 2 ^ extraBits n div 2"
proof -
  define k where "k = extraBits n"
  define q where "q = n div 2 ^ k"
  define r where "r = n mod 2 ^ k"
  define p where "p = (2::nat) ^ k"
  have n: "n = q * p + r" unfolding q_def r_def p_def by (rule div_mult_mod_eq [symmetric])
  have rd: "roundToDouble n = (if p < 2 * r \<or> (2 * r = p \<and> odd q) then (q + 1) * p else q * p)"
    by (simp add: roundToDouble_def Let_def k_def q_def r_def p_def)
  show ?thesis
  proof (cases "p < 2 * r \<or> (2 * r = p \<and> odd q)")
    case False
    hence "roundToDouble n = q * p" unfolding rd by (rule if_not_P)
    thus ?thesis using n by linarith
  next
    case True
    hence "roundToDouble n = (q + 1) * p" unfolding rd by (rule if_P)
    hence up: "roundToDouble n = q * p + p" by simp
    have "p \<le> 2 * r" using True by auto
    hence "p \<le> r + p div 2" by linarith
    hence "roundToDouble n \<le> n + p div 2" using up n by linarith
    thus ?thesis by (simp add: p_def k_def)
  qed
qed

lemma roundToDouble_exact: "n < 2 ^ 53 \<Longrightarrow> roundToDouble n = n"
  by (simp add: roundToDouble_def extraBits.simps [of n])

lemma scaled_floor_less:
  assumes "m < 2 ^ 53" "53 \<le> e" "9 \<le> c" "c \<le> 16"
  shows "roundToDouble (m * c) div 2 ^ e < c"
proof -
  define P where "P = (2::nat) ^ 53"
  have m: "m + 1 \<le> P" using assms(1) by (simp add: P_def)
  hence "(m + 1) * c \<le> P * c" by (rule mult_le_mono1)
  hence mc: "m * c + c \<le> P * c" by (simp add: algebra_simps)
  have "m * c \<le> m * 16" using assms(4) by (rule mult_le_mono2)
  moreover have "m * 16 < P * 16" using assms(1) by (simp add: P_def)
  ultimately have "m * c < P * 16" by linarith
  moreover have "P * 16 = 2 ^ (53 + 4)" by (simp add: P_def power_add)
  ultimately have "m * c < 2 ^ (53 + 4)" by simp
  hence k: "extraBits (m * c) \<le> 4" by (rule extraBits_le)
  have "(2::nat) ^ extraBits (m * c) \<le> 2 ^ 4" using k by (intro power_increasing) simp_all
  hence "(2::nat) ^ extraBits (m * c) div 2 \<le> 8" by simp
  hence "roundToDouble (m * c) \<le> m * c + 8" using roundToDouble_le [of "m * c"] by linarith
  hence a: "roundToDouble (m * c) < P * c" using mc assms(3) by linarith
  have "P \<le> 2 ^ e" unfolding P_def using assms(2) by (intro power_increasing) simp_all
  hence "P * c \<le> 2 ^ e * c" by (rule mult_le_mono1)
  with a have "roundToDouble (m * c) < 2 ^ e * c" by (rule less_le_trans)
  hence "roundToDouble (m * c) < c * 2 ^ e" by (simp only: mult.commute)
  thus ?thesis by (rule less_mult_imp_div_less)
qed

text \<open>
  The draw \<open>4003199668773774 / 2 ^ 53\<close>: nine times it is \<open>4 - 1 / 2 ^ 52\<close>, half way
  between two doubles, and the product is rounded up to 4, so that the value is 5.
\<close>

lemma generateBlock_rounds_product:
  "block_value (generateBlock \<lparr>id_text = ''0.i'', mantissa = 4003199668773774, exponent = 53\<rparr>)
   = 5"
  by (simp add: generateBlock_def BLOCK_MAX_def BLOCK_MIN_def roundToDouble_def
      extraBits.simps Let_def)

text \<open>
  C8, as the code has it. A block made by \<^verbatim>\<open>generateBlock\<close> from a second draw that is a
  double \<open>u\<close> with \<open>0 \<le> u < 1\<close> has a value from 1 to 9. Its id is made of the at most nine
  characters that follow the first two of the text of its first draw and of nothing else:
  no live block is consulted, and two blocks whose draws agree on those characters have
  the same id.
\<close>

theorem generateBlock_spec:
  "(validDraw d \<longrightarrow>
      1 \<le> block_value (generateBlock d) \<and> block_value (generateBlock d) \<le> 9) \<and>
   block_id (generateBlock d) = take 9 (drop 2 (id_text d)) \<and>
   length (block_id (generateBlock d)) \<le> 9 \<and>
   (take 9 (drop 2 (id_text d')) = take 9 (drop 2 (id_text d)) \<longrightarrow>
      block_id (generateBlock d') = block_id (generateBlock d))"
proof -
  have "validDraw d \<longrightarrow> roundToDouble (mantissa d * 9) div 2 ^ exponent d < 9"
    using scaled_floor_less [of "mantissa d" "exponent d" 9] by (simp add: validDraw_def)
  thus ?thesis
    by (auto simp: generateBlock_def substring_def BLOCK_MAX_def BLOCK_MIN_def)
qed

theorem generateBlock_spec_witness:
  "validDraw (sampleDraws 3) \<and>
   block_value (generateBlock (sampleDraws 3)) = 5 \<and>
   block_id (generateBlock (sampleDraws 3)) = ''29'' \<and>
   take 9 (drop 2 (id_text (sameDraws 1))) = take 9 (drop 2 (id_text (sameDraws 0))) \<and>
   block_id (generateBlock (sameDraws 1)) = block_id (generateBlock (sameDraws 0))"
proof -
  have u: "validDraw (sampleDraws 3)"
    by (simp add: sampleDraws_def validDraw_def)
  have t: "take 9 (drop 2 (id_text (sameDraws 1))) = take 9 (drop 2 (id_text (sameDraws 0)))"
    by (simp add: sameDraws_def)
  from generateBlock_spec [of "sampleDraws 3"] u
  have r: "1 \<le> block_value (generateBlock (sampleDraws 3))" by blast
  have v: "block_value (generateBlock (sampleDraws 3)) = 5"
    by (simp add: generateBlock_def sampleDraws_def BLOCK_MAX_def BLOCK_MIN_def roundToDouble_def
        extraBits.simps Let_def)
  have i: "block_id (generateBlock (sampleDraws 3)) = ''29''"
    by (simp add: generateBlock_def sampleDraws_def sampleTexts_def substring_def)
  from generateBlock_spec [of "sameDraws 0" "sameDraws 1"] t
  have "block_id (generateBlock (sameDraws 1)) = block_id (generateBlock (sameDraws 0))"
    by blast
  thus ?thesis using u t v i r by blast
qed

text \<open>
  The row that \<^verbatim>\<open>addRow\<close> builds when every first draw is \<open>1/2\<close> holds six blocks with
  the id \<^verbatim>\<open>i\<close>: after the injection the blocks of the grid do not have distinct ids.
\<close>

theorem generateBlock_ids_counterexample:
  "block_id (generateBlock (sameDraws 0)) = block_id (generateBlock (sameDraws 1)) \<and>
   injectRow sameDraws sampleGrid = Inr (tl sampleGrid @ [freshRow sameDraws]) \<and>
   \<not> distinct (map block_id (tiles (tl sampleGrid @ [freshRow sameDraws])))"
proof (intro conjI)
  show "block_id (generateBlock (sameDraws 0)) = block_id (generateBlock (sameDraws 1))"
    by (simp add: generateBlock_def sameDraws_def)
  have l: "length sampleGrid = ROWS" by code_simp
  have e: "\<not> isTopRowOccupied sampleGrid" by code_simp
  show "injectRow sameDraws sampleGrid = Inr (tl sampleGrid @ [freshRow sameDraws])"
    using l e by (rule injectRow_shift)
  have "map block_id (somes (freshRow sameDraws)) =
        map (\<lambda>c. block_id (generateBlock (sameDraws c))) [0..<COLS]"
    by (simp add: freshRow_def somes_map_Some_fun)
  also have "\<dots> = replicate 6 ''i''"
    by (simp add: generateBlock_def sameDraws_def substring_def COLS_def map_replicate_const)
  finally have "\<not> distinct (map block_id (somes (freshRow sameDraws)))"
    by (simp add: eval_nat_numeral)
  thus "\<not> distinct (map block_id (tiles (tl sampleGrid @ [freshRow sameDraws])))"
    by (simp add: tiles_def somes_append)
qed

section \<open>Selection\<close>

lemma fold_sum:
  "fold (\<lambda>b acc. case b of None \<Rightarrow> acc
                   | Some t \<Rightarrow> if block_id t |\<in>| sel then acc + block_value t else acc) cells a
   = a + sum_list (map block_value (filter (\<lambda>t. block_id t |\<in>| sel) (somes cells)))"
  by (induction cells arbitrary: a rule: somes.induct) simp_all

lemma currentSum_eq:
  "currentSum g sel = sum_list (map block_value (filter (\<lambda>t. block_id t |\<in>| sel) (tiles g)))"
  by (simp add: currentSum_def tiles_def fold_sum)

text \<open>
  C4. In a started round that is neither over, paused nor processing, a click on a block
  that is not being cleared flips the id of the block in the selection and sums the values
  of the blocks of the grid whose id is selected. When the sum is the target the handler
  is \<^verbatim>\<open>handleSuccess\<close> on the new selection, which becomes the set of ids being cleared;
  when the sum is larger the selection becomes empty; when it is smaller the selection
  becomes the new one.
\<close>

theorem handleBlockClick_spec:
  assumes "playing s" "block_id b |\<notin>| clearingIds s"
    and "newSelected = (if block_id b |\<in>| selectedIds s
                        then selectedIds s |-| {|block_id b|}
                        else finsert (block_id b) (selectedIds s))"
    and "csum = sum_list (map block_value
                   (filter (\<lambda>t. block_id t |\<in>| newSelected) (tiles (grid s))))"
  shows "(csum = target s \<longrightarrow>
            handleBlockClick b s = handleSuccess newSelected s \<and>
            clearingIds (handleBlockClick b s) = newSelected \<and>
            isProcessing (handleBlockClick b s)) \<and>
         (csum > target s \<longrightarrow> handleBlockClick b s = s\<lparr>selectedIds := {||}\<rparr>) \<and>
         (csum < target s \<longrightarrow> handleBlockClick b s = s\<lparr>selectedIds := newSelected\<rparr>)"
  using assms
  by (simp add: handleBlockClick_def playing_def toggleId_def currentSum_eq handleSuccess_def Let_def)

theorem handleBlockClick_spec_witness:
  "playing (sampleState\<lparr>selectedIds := {|''a'', ''b''|}\<rparr>) \<and>
   handleBlockClick (mkBlock ''c'' 5) (sampleState\<lparr>selectedIds := {|''a'', ''b''|}\<rparr>) =
     handleSuccess {|''c'', ''a'', ''b''|} (sampleState\<lparr>selectedIds := {|''a'', ''b''|}\<rparr>) \<and>
   clearingIds (handleBlockClick (mkBlock ''c'' 5) (sampleState\<lparr>selectedIds := {|''a'', ''b''|}\<rparr>)) =
     {|''c'', ''a'', ''b''|} \<and>
   playing (sampleState\<lparr>selectedIds := {|''b''|}, target := 10\<rparr>) \<and>
   handleBlockClick (mkBlock ''f'' 6) (sampleState\<lparr>selectedIds := {|''b''|}, target := 10\<rparr>) =
     sampleState\<lparr>selectedIds := {||}, target := 10\<rparr> \<and>
   handleBlockClick (mkBlock ''a'' 3) (sampleState\<lparr>selectedIds := {|''b''|}\<rparr>) =
     sampleState\<lparr>selectedIds := {|''a'', ''b''|}\<rparr>"
proof -
  let ?s1 = "sampleState\<lparr>selectedIds := {|''a'', ''b''|}\<rparr>"
  let ?s2 = "sampleState\<lparr>selectedIds := {|''b''|}, target := 10\<rparr>"
  let ?s3 = "sampleState\<lparr>selectedIds := {|''b''|}\<rparr>"
  have p: "playing ?s1" "playing ?s2" "playing ?s3"
    by (simp_all add: playing_def sampleState_def)
  have c: "block_id (mkBlock ''c'' 5) |\<notin>| clearingIds ?s1"
          "block_id (mkBlock ''f'' 6) |\<notin>| clearingIds ?s2"
          "block_id (mkBlock ''a'' 3) |\<notin>| clearingIds ?s3"
    by (simp_all add: sampleState_def)
  have n1: "{|''c'', ''a'', ''b''|} =
      (if block_id (mkBlock ''c'' 5) |\<in>| selectedIds ?s1
       then selectedIds ?s1 |-| {|block_id (mkBlock ''c'' 5)|}
       else finsert (block_id (mkBlock ''c'' 5)) (selectedIds ?s1))"
    by (simp add: mkBlock_def)
  have n2: "{|''f'', ''b''|} =
      (if block_id (mkBlock ''f'' 6) |\<in>| selectedIds ?s2
       then selectedIds ?s2 |-| {|block_id (mkBlock ''f'' 6)|}
       else finsert (block_id (mkBlock ''f'' 6)) (selectedIds ?s2))"
    by (simp add: mkBlock_def)
  have n3: "{|''a'', ''b''|} =
      (if block_id (mkBlock ''a'' 3) |\<in>| selectedIds ?s3
       then selectedIds ?s3 |-| {|block_id (mkBlock ''a'' 3)|}
       else finsert (block_id (mkBlock ''a'' 3)) (selectedIds ?s3))"
    by (simp add: mkBlock_def)
  have t1: "(15::int) = sum_list (map block_value
              (filter (\<lambda>t. block_id t |\<in>| {|''c'', ''a'', ''b''|}) (tiles (grid ?s1))))"
    by code_simp
  have t2: "(13::int) = sum_list (map block_value
              (filter (\<lambda>t. block_id t |\<in>| {|''f'', ''b''|}) (tiles (grid ?s2))))"
    by code_simp
  have t3: "(10::int) = sum_list (map block_value
              (filter (\<lambda>t. block_id t |\<in>| {|''a'', ''b''|}) (tiles (grid ?s3))))"
    by code_simp
  have g: "15 = target ?s1" "13 > target ?s2" "10 < target ?s3"
    by (simp_all add: sampleState_def)
  from handleBlockClick_spec [OF p(1) c(1) n1 t1] g(1)
  have 1: "handleBlockClick (mkBlock ''c'' 5) ?s1 = handleSuccess {|''c'', ''a'', ''b''|} ?s1"
    "clearingIds (handleBlockClick (mkBlock ''c'' 5) ?s1) = {|''c'', ''a'', ''b''|}"
    by blast+
  from handleBlockClick_spec [OF p(2) c(2) n2 t2] g(2)
  have 2: "handleBlockClick (mkBlock ''f'' 6) ?s2 = ?s2\<lparr>selectedIds := {||}\<rparr>" by blast
  from handleBlockClick_spec [OF p(3) c(3) n3 t3] g(3)
  have 3: "handleBlockClick (mkBlock ''a'' 3) ?s3 = ?s3\<lparr>selectedIds := {|''a'', ''b''|}\<rparr>"
    by blast
  show ?thesis using p 1 2 3 by (simp add: sampleState_def)
qed

section \<open>The grid of a new round\<close>

lemma fold_cells_row:
  "distinct cs \<Longrightarrow> \<forall>c \<in> set cs. c < length row \<Longrightarrow>
   fold (\<lambda>c row'. row'[c := F c]) cs row =
   map (\<lambda>c. if c \<in> set cs then F c else row ! c) [0..<length row]"
proof (induction cs arbitrary: row)
  case Nil
  show ?case by (simp add: map_nth)
next
  case (Cons c cs)
  have "fold (\<lambda>c row'. row'[c := F c]) cs (row[c := F c]) =
        map (\<lambda>k. if k \<in> set cs then F k else row[c := F c] ! k) [0..<length (row[c := F c])]"
    using Cons.prems by (intro Cons.IH) auto
  also have "\<dots> = map (\<lambda>k. if k \<in> set (c # cs) then F k else row ! k) [0..<length row]"
    by (rule nth_equalityI) (auto simp: nth_list_update)
  finally show ?case by simp
qed

lemma fold_cells_grid:
  "r < length g \<Longrightarrow>
   fold (\<lambda>c g'. g'[r := (g' ! r)[c := F c]]) cs g = g[r := fold (\<lambda>c row'. row'[c := F c]) cs (g ! r)]"
  by (induction cs arbitrary: g) simp_all

lemma fillRow_eq:
  assumes "r < length g" "length (g ! r) = COLS"
  shows "fillRow bs r g =
         g[r := map (\<lambda>c. Some (generateBlock (bs ((r - (ROWS - INITIAL_ROWS)) * COLS + c))))
                     [0..<COLS]]"
proof -
  let ?F = "\<lambda>c. Some (generateBlock (bs ((r - (ROWS - INITIAL_ROWS)) * COLS + c)))"
  have "fold (\<lambda>c row'. row'[c := ?F c]) [0..<COLS] (g ! r) =
        map (\<lambda>c. if c \<in> set [0..<COLS] then ?F c else g ! r ! c) [0..<length (g ! r)]"
    using assms(2) by (intro fold_cells_row) simp_all
  also have "\<dots> = map ?F [0..<COLS]"
    using assms(2) by (intro nth_equalityI) simp_all
  finally show ?thesis
    unfolding fillRow_def using assms(1) by (simp add: fold_cells_grid)
qed

lemma newGrid_eq:
  "newGrid bs = replicate 7 emptyRow @ [filledRow bs 0, filledRow bs 1, filledRow bs 2]"
proof -
  have u: "[ROWS - INITIAL_ROWS..<ROWS] = [7, 8, 9]"
    by (simp add: ROWS_def INITIAL_ROWS_def upt_rec)
  have e: "replicate ROWS (replicate COLS None) =
           [emptyRow, emptyRow, emptyRow, emptyRow, emptyRow, emptyRow, emptyRow,
            emptyRow, emptyRow, emptyRow]"
    by (simp add: ROWS_def emptyRow_def eval_nat_numeral)
  have l: "length emptyRow = COLS" by (simp add: emptyRow_def)
  have d: "ROWS - INITIAL_ROWS = 7" by (simp add: ROWS_def INITIAL_ROWS_def)
  show ?thesis
    unfolding newGrid_def u e
    by (simp add: fillRow_eq l d filledRow_def eval_nat_numeral)
qed

lemma newGrid_wf: "wfGrid (newGrid bs)"
  by (simp add: newGrid_eq wfGrid_def ROWS_def emptyRow_def filledRow_def list_all_iff)

lemma newGrid_top: "\<not> isTopRowOccupied (newGrid bs)"
  by (simp add: newGrid_eq isTopRowOccupied_def rowOccupied_def emptyRow_def list_ex_iff
        eval_nat_numeral)

lemma gameOverEffect_fields:
  "grid (gameOverEffect s) = grid s" "score (gameOverEffect s) = score s"
  "highScore (gameOverEffect s) = highScore s" "timeLeft (gameOverEffect s) = timeLeft s"
  "target (gameOverEffect s) = target s" "selectedIds (gameOverEffect s) = selectedIds s"
  "mode (gameOverEffect s) = mode s" "gameStarted (gameOverEffect s) = gameStarted s"
  "isPaused (gameOverEffect s) = isPaused s" "isProcessing (gameOverEffect s) = isProcessing s"
  "clearingIds (gameOverEffect s) = clearingIds s"
  "isGameOver (gameOverEffect s) = (isGameOver s \<or> isTopRowOccupied (grid s))"
  by (simp_all add: gameOverEffect_def)

lemma highScoreEffect_fields:
  "grid (highScoreEffect s) = grid s" "score (highScoreEffect s) = score s"
  "timeLeft (highScoreEffect s) = timeLeft s"
  "target (highScoreEffect s) = target s" "selectedIds (highScoreEffect s) = selectedIds s"
  "mode (highScoreEffect s) = mode s" "gameStarted (highScoreEffect s) = gameStarted s"
  "isPaused (highScoreEffect s) = isPaused s" "isProcessing (highScoreEffect s) = isProcessing s"
  "clearingIds (highScoreEffect s) = clearingIds s"
  "isGameOver (highScoreEffect s) = isGameOver s"
  by (simp_all add: highScoreEffect_def)

lemma afterRender_fields:
  "grid (afterRender r s s') = grid s'" "score (afterRender r s s') = score s'"
  "timeLeft (afterRender r s s') = timeLeft s'"
  "target (afterRender r s s') = target s'" "selectedIds (afterRender r s s') = selectedIds s'"
  "mode (afterRender r s s') = mode s'" "gameStarted (afterRender r s s') = gameStarted s'"
  "isPaused (afterRender r s s') = isPaused s'" "isProcessing (afterRender r s s') = isProcessing s'"
  "clearingIds (afterRender r s s') = clearingIds s'"
  "isGameOver (afterRender r s s') = (isGameOver s' \<or> (r \<and> isTopRowOccupied (grid s')))"
  by (simp_all add: afterRender_def Let_def gameOverEffect_fields highScoreEffect_fields)

section \<open>Reset\<close>

text \<open>
  C9, as the code has it. A click on the reset button of a started round leaves the mode
  and the paused flag as they were and gives a grid of seven empty rows above three rows
  filled with new blocks, a target from 10 to 25, the score 0, the empty selection and
  8000 ms on the timer; the round is neither over nor processing, and it is in the playing
  phase when it was not paused before.
\<close>

theorem resetGame_spec:
  assumes "gameStarted s" "unit_interval u"
  shows "\<exists>s'. step (Reset bs u) s = Inr s' \<and>
           mode s' = mode s \<and> gameStarted s' \<and> isPaused s' = isPaused s \<and>
           grid s' = replicate 7 emptyRow @ [filledRow bs 0, filledRow bs 1, filledRow bs 2] \<and>
           wfGrid (grid s') \<and>
           10 \<le> target s' \<and> target s' \<le> 25 \<and> score s' = 0 \<and> selectedIds s' = {||} \<and>
           timeLeft s' = 8000 \<and> \<not> isGameOver s' \<and> \<not> isProcessing s' \<and>
           (\<not> isPaused s \<longrightarrow> playing s')"
proof -
  let ?s' = "afterRender True s (resetGame bs u s)"
  have g: "grid (resetGame bs u s) = newGrid bs" by (simp add: resetGame_def initGrid_def)
  have "step (Reset bs u) s = Inr ?s'" using assms(1) by simp
  moreover have "mode ?s' = mode s" "gameStarted ?s'" "isPaused ?s' = isPaused s"
    "score ?s' = 0" "selectedIds ?s' = {||}" "timeLeft ?s' = 8000" "\<not> isProcessing ?s'"
    using assms(1)
    by (simp_all add: afterRender_fields resetGame_def initGrid_def TIME_MODE_INTERVAL_def)
  moreover have "grid ?s' = replicate 7 emptyRow @ [filledRow bs 0, filledRow bs 1, filledRow bs 2]"
    "wfGrid (grid ?s')"
    using newGrid_wf [of bs] by (simp_all add: afterRender_fields g newGrid_eq)
  moreover have "10 \<le> target ?s'" "target ?s' \<le> 25"
    using nextTarget_range [OF assms(2)]
    by (simp_all add: afterRender_fields resetGame_def initGrid_def)
  moreover have "\<not> isGameOver ?s'"
    using newGrid_top [of bs] by (simp add: afterRender_fields g) (simp add: resetGame_def initGrid_def)
  ultimately show ?thesis by (simp add: playing_def)
qed

theorem resetGame_spec_witness:
  "gameStarted (sampleState\<lparr>isGameOver := True\<rparr>) \<and> unit_interval (1 / 2) \<and>
   (\<exists>s'. step (Reset sampleDraws (1 / 2)) (sampleState\<lparr>isGameOver := True\<rparr>) = Inr s' \<and>
         score s' = 0 \<and> \<not> isGameOver s' \<and> playing s')"
proof -
  have a: "gameStarted (sampleState\<lparr>isGameOver := True\<rparr>)" by (simp add: sampleState_def)
  have b: "unit_interval (1 / 2)" by (simp add: unit_interval_def)
  have c: "\<not> isPaused (sampleState\<lparr>isGameOver := True\<rparr>)" by (simp add: sampleState_def)
  from resetGame_spec [OF a b, of sampleDraws] a b c show ?thesis by blast
qed

text \<open>A paused round is still paused after \<^verbatim>\<open>resetGame\<close>: it is not playing.\<close>

theorem resetGame_paused_counterexample:
  "gameStarted (sampleState\<lparr>isPaused := True\<rparr>) \<and>
   isPaused (resetGame sampleDraws (1 / 2) (sampleState\<lparr>isPaused := True\<rparr>)) \<and>
   \<not> playing (resetGame sampleDraws (1 / 2) (sampleState\<lparr>isPaused := True\<rparr>))"
  by (simp add: resetGame_def initGrid_def sampleState_def playing_def)

section \<open>The timer\<close>

lemma tick_decrement:
  assumes "timerActive s" "100 < timeLeft s"
  shows "step (Tick bs) s = Inr (s\<lparr>timeLeft := timeLeft s - 100\<rparr>)"
  using assms by (simp add: timerTick_def afterRender_def)

lemma runTicks_decrement:
  "timerActive s \<Longrightarrow> 100 * int (length bss) < timeLeft s \<Longrightarrow>
   runTicks bss s = Inr (s\<lparr>timeLeft := timeLeft s - 100 * int (length bss)\<rparr>)"
proof (induction bss arbitrary: s)
  case Nil
  show ?case by simp
next
  case (Cons bs bss)
  let ?s1 = "s\<lparr>timeLeft := timeLeft s - 100\<rparr>"
  have big: "100 < timeLeft s" using Cons.prems(2) by simp
  have st: "step (Tick bs) s = Inr ?s1" using Cons.prems(1) big by (rule tick_decrement)
  have act: "timerActive ?s1" using Cons.prems(1) by (simp add: timerActive_def)
  have "100 * int (length bss) < timeLeft ?s1" using Cons.prems(2) by simp
  hence "runTicks bss ?s1 = Inr (?s1\<lparr>timeLeft := timeLeft ?s1 - 100 * int (length bss)\<rparr>)"
    using act by (intro Cons.IH)
  thus ?case using st by (simp add: algebra_simps)
qed

lemma runTicks_append:
  "runTicks (xs @ ys) s = (case runTicks xs s of Inl e \<Rightarrow> Inl e | Inr s' \<Rightarrow> runTicks ys s')"
  by (induction xs arbitrary: s) (simp_all split: sum.splits)

lemma tick_inject:
  assumes "timerActive s" "timeLeft s \<le> 100" "injectRow bs (grid s) = Inr g"
  shows "step (Tick bs) s =
         Inr (afterRender (\<not> isTopRowOccupied (grid s)) s (s\<lparr>grid := g, timeLeft := 8000\<rparr>))"
  using assms by (simp add: timerTick_def addRow_def TIME_MODE_INTERVAL_def)

lemma injectRow_total:
  assumes "length g = ROWS"
  shows "injectRow bs g = Inr (if isTopRowOccupied g then g else tl g @ [freshRow bs])"
  using assms by (simp add: injectRow_suppressed injectRow_shift)

text \<open>
  C7. In timed mode, with the interval running and 8000 ms left, each of the first 79
  callbacks only takes 100 ms off the remaining time and leaves everything else as it is;
  the 80th calls the updater of \<^verbatim>\<open>addRow\<close> once on the grid, which on a grid with an
  empty row 0 shifts the rows up and appends one new row, and the remaining time is 8000
  ms again.
\<close>

theorem timed_ticks_spec:
  assumes "timerActive s" "timeLeft s = 8000" "length (grid s) = ROWS" "length bss = 80"
  shows "(\<forall>k < 80. runTicks (take k bss) s = Inr (s\<lparr>timeLeft := 8000 - 100 * int k\<rparr>)) \<and>
         (\<exists>s'. runTicks bss s = Inr s' \<and>
               injectRow (bss ! 79) (grid s) = Inr (grid s') \<and>
               (\<not> isTopRowOccupied (grid s) \<longrightarrow>
                  grid s' = tl (grid s) @ [freshRow (bss ! 79)]) \<and>
               timeLeft s' = 8000)"
proof
  show "\<forall>k < 80. runTicks (take k bss) s = Inr (s\<lparr>timeLeft := 8000 - 100 * int k\<rparr>)"
  proof (intro allI impI)
    fix k :: nat assume k: "k < 80"
    hence "100 * int (length (take k bss)) < timeLeft s" using assms(2,4) by simp
    from runTicks_decrement [OF assms(1) this] k assms(2,4)
    show "runTicks (take k bss) s = Inr (s\<lparr>timeLeft := 8000 - 100 * int k\<rparr>)" by simp
  qed
next
  let ?bs = "bss ! 79"
  let ?s79 = "s\<lparr>timeLeft := 100\<rparr>"
  let ?g = "if isTopRowOccupied (grid s) then grid s else tl (grid s) @ [freshRow ?bs]"
  let ?s' = "afterRender (\<not> isTopRowOccupied (grid s)) ?s79 (?s79\<lparr>grid := ?g, timeLeft := 8000\<rparr>)"
  have split: "bss = take 79 bss @ [?bs]"
    using assms(4) by (simp add: take_Suc_conv_app_nth [symmetric])
  have "100 * int (length (take 79 bss)) < timeLeft s" using assms(2,4) by simp
  from runTicks_decrement [OF assms(1) this]
  have r79: "runTicks (take 79 bss) s = Inr ?s79" using assms(2,4) by simp
  have act: "timerActive ?s79" using assms(1) by (simp add: timerActive_def)
  have inj: "injectRow ?bs (grid ?s79) = Inr ?g"
    using injectRow_total [OF assms(3), of ?bs] by simp
  have "step (Tick ?bs) ?s79 = Inr ?s'"
    using tick_inject [OF act _ inj] by simp
  hence "runTicks [?bs] ?s79 = Inr ?s'" by simp
  hence "runTicks (take 79 bss @ [?bs]) s = Inr ?s'"
    using r79 by (simp add: runTicks_append)
  hence run: "runTicks bss s = Inr ?s'" using split by simp
  have "injectRow ?bs (grid s) = Inr (grid ?s')"
    using inj by (simp add: afterRender_fields)
  moreover have "\<not> isTopRowOccupied (grid s) \<longrightarrow> grid ?s' = tl (grid s) @ [freshRow ?bs]"
    by (simp add: afterRender_fields)
  moreover have "timeLeft ?s' = 8000" by (simp add: afterRender_fields)
  ultimately show "\<exists>s'. runTicks bss s = Inr s' \<and>
               injectRow (bss ! 79) (grid s) = Inr (grid s') \<and>
               (\<not> isTopRowOccupied (grid s) \<longrightarrow>
                  grid s' = tl (grid s) @ [freshRow (bss ! 79)]) \<and>
               timeLeft s' = 8000"
    using run by blast
qed

theorem timed_ticks_spec_witness:
  "timerActive (sampleState\<lparr>mode := Time\<rparr>) \<and> timeLeft (sampleState\<lparr>mode := Time\<rparr>) = 8000 \<and>
   length (grid (sampleState\<lparr>mode := Time\<rparr>)) = ROWS \<and> length (replicate 80 sampleDraws) = 80 \<and>
   runTicks (take 79 (replicate 80 sampleDraws)) (sampleState\<lparr>mode := Time\<rparr>) =
     Inr (sampleState\<lparr>mode := Time, timeLeft := 100\<rparr>) \<and>
   (\<exists>s'. runTicks (replicate 80 sampleDraws) (sampleState\<lparr>mode := Time\<rparr>) = Inr s' \<and>
         grid s' = tl sampleGrid @ [freshRow sampleDraws] \<and> timeLeft s' = 8000)"
proof -
  let ?s = "sampleState\<lparr>mode := Time\<rparr>"
  have a: "timerActive ?s" by (simp add: timerActive_def sampleState_def)
  have b: "timeLeft ?s = 8000" by (simp add: sampleState_def)
  have c: "length (grid ?s) = ROWS" by code_simp
  have d: "length (replicate 80 sampleDraws) = 80" by simp
  have e: "\<not> isTopRowOccupied (grid ?s)" by code_simp
  have g: "grid ?s = sampleGrid" by (simp add: sampleState_def)
  note t = timed_ticks_spec [OF a b c d]
  from t have "runTicks (take 79 (replicate 80 sampleDraws)) ?s =
      Inr (?s\<lparr>timeLeft := 8000 - 100 * int 79\<rparr>)" by simp
  hence 1: "runTicks (take 79 (replicate 80 sampleDraws)) ?s =
      Inr (sampleState\<lparr>mode := Time, timeLeft := 100\<rparr>)" by simp
  from t e g have 2: "\<exists>s'. runTicks (replicate 80 sampleDraws) ?s = Inr s' \<and>
         grid s' = tl sampleGrid @ [freshRow sampleDraws] \<and> timeLeft s' = 8000"
    by auto
  show ?thesis using a b c d 1 2 by blast
qed

section \<open>Resolution of a match\<close>

lemma count_Cons:
  "length (filter P (somes (x # xs))) =
   length (filter P (somes [x])) + length (filter P (somes xs))"
  by (cases x) simp_all

lemma count_row:
  "length (filter P (somes row)) = (\<Sum>c < length row. length (filter P (somes [cellAt row c])))"
proof (induction row rule: rev_induct)
  case Nil
  show ?case by simp
next
  case (snoc x row)
  have "(\<Sum>c < length row. length (filter P (somes [cellAt (row @ [x]) c]))) =
        (\<Sum>c < length row. length (filter P (somes [cellAt row c])))"
    by (intro sum.cong) (simp_all add: cellAt_def nth_append)
  moreover have "cellAt (row @ [x]) (length row) = x" by (simp add: cellAt_def)
  ultimately show ?case using snoc.IH by (simp add: somes_append)
qed

lemma count_by_columns:
  "\<forall>row \<in> set g. length row = n \<Longrightarrow>
   length (filter P (somes (concat g))) = (\<Sum>c < n. length (filter P (somes (columnOf g c))))"
proof (induction g)
  case Nil
  show ?case by (simp add: columnOf_def)
next
  case (Cons row g)
  have n: "length row = n" using Cons.prems by simp
  have "(\<Sum>c < n. length (filter P (somes (columnOf (row # g) c)))) =
        (\<Sum>c < n. length (filter P (somes [cellAt row c])) +
                    length (filter P (somes (columnOf g c))))"
  proof (intro sum.cong refl)
    fix c
    have "columnOf (row # g) c = cellAt row c # columnOf g c" by (simp add: columnOf_def)
    thus "length (filter P (somes (columnOf (row # g) c))) =
          length (filter P (somes [cellAt row c])) + length (filter P (somes (columnOf g c)))"
      using count_Cons [of P "cellAt row c" "columnOf g c"] by simp
  qed
  also have "\<dots> = length (filter P (somes row)) + length (filter P (somes (concat g)))"
    using Cons.IH Cons.prems by (simp add: sum.distrib count_row [of P row] n)
  finally show ?case by (simp add: somes_append)
qed

lemma count_tiles:
  "wfGrid g \<Longrightarrow>
   length (filter P (tiles g)) = (\<Sum>c < COLS. length (filter P (somes (columnOf g c))))"
  by (simp add: tiles_def count_by_columns wfGrid_def list_all_iff)

lemma tiles_after_clear:
  assumes "wfGrid g"
  shows "length (tiles (gravity (map (map (clearCell ids)) g))) +
         length (filter (\<lambda>t. block_id t |\<in>| ids) (tiles g)) = length (tiles g)"
proof -
  let ?g1 = "gravity (map (map (clearCell ids)) g)"
  have wf1: "wfGrid ?g1" using assms by (rule clearAndCompact_columns(2))
  have "length (tiles ?g1) = length (filter (\<lambda>t. True) (tiles ?g1))" by simp
  also have "\<dots> = (\<Sum>c < COLS. length (filter (\<lambda>t. True) (somes (columnOf ?g1 c))))"
    using wf1 by (rule count_tiles)
  also have "\<dots> = (\<Sum>c < COLS. length (filter (\<lambda>t. block_id t |\<notin>| ids) (somes (columnOf g c))))"
    using clearAndCompact_columns(3) [OF assms, where ids = ids]
    by (intro sum.cong refl) (simp add: somes_settle somes_clear)
  also have "\<dots> = length (filter (\<lambda>t. block_id t |\<notin>| ids) (tiles g))"
    using count_tiles [OF assms, of "\<lambda>t. block_id t |\<notin>| ids"] by simp
  finally show ?thesis
    using sum_length_filter_compl [of "\<lambda>t. block_id t |\<in>| ids" "tiles g"] by simp
qed

lemma selected_count:
  assumes "distinct (map block_id ts)" "fset ids \<subseteq> block_id ` set ts"
  shows "length (filter (\<lambda>t. block_id t |\<in>| ids) ts) = fcard ids"
proof -
  have "length (filter (\<lambda>t. block_id t |\<in>| ids) ts) =
        length (filter (\<lambda>i. i |\<in>| ids) (map block_id ts))"
    by (simp add: filter_map comp_def)
  also have "\<dots> = card ({i. i |\<in>| ids} \<inter> set (map block_id ts))"
    using assms(1) by (rule distinct_length_filter)
  also have "{i. i |\<in>| ids} \<inter> set (map block_id ts) = fset ids"
    using assms(2) by auto
  finally show ?thesis by (simp add: fcard.rep_eq)
qed

text \<open>
  C5, as the code has it. \<^verbatim>\<open>handleSuccess\<close> on a state that is not processing adds ten
  times the number of ids to the score. When its callback fires on a grid of \<open>ROWS\<close> by \<open>COLS\<close> cells, the
  number of blocks drops by the number of blocks whose id is in the set, which is the
  number of ids when the ids of the grid are pairwise distinct and the set is among them;
  the score stays, the target is new and from 10 to 25, the selection is empty, and the
  grid is the compacted one after one call of the updater of \<^verbatim>\<open>addRow\<close> in classic mode
  and the compacted one itself in timed mode.
\<close>

theorem match_resolution_spec:
  assumes "\<not> isProcessing s" "wfGrid (grid s1)" "unit_interval u"
  shows "score (handleSuccess ids s) = score s + 10 * int (fcard ids) \<and>
         (\<exists>g1 s2. clearAndCompact ids (grid s1) = Inr g1 \<and>
            step (Resolve ids m bs u) s1 = Inr s2 \<and>
            length (tiles g1) + length (filter (\<lambda>t. block_id t |\<in>| ids) (tiles (grid s1)))
              = length (tiles (grid s1)) \<and>
            (distinct (map block_id (tiles (grid s1))) \<and>
             fset ids \<subseteq> block_id ` set (tiles (grid s1)) \<longrightarrow>
               length (filter (\<lambda>t. block_id t |\<in>| ids) (tiles (grid s1))) = fcard ids) \<and>
            score s2 = score s1 \<and> 10 \<le> target s2 \<and> target s2 \<le> 25 \<and>
            selectedIds s2 = {||} \<and> clearingIds s2 = {||} \<and> \<not> isProcessing s2 \<and>
            (m = Classic \<longrightarrow> injectRow bs g1 = Inr (grid s2)) \<and>
            (m = Time \<longrightarrow> grid s2 = g1))"
proof
  show "score (handleSuccess ids s) = score s + 10 * int (fcard ids)"
    using assms(1) by (simp add: handleSuccess_def)
next
  let ?g1 = "gravity (map (map (clearCell ids)) (grid s1))"
  let ?s1' = "s1\<lparr> grid := ?g1, clearingIds := {||}, selectedIds := {||},
                    target := nextTarget u, isProcessing := False \<rparr>"
  let ?g2 = "if isTopRowOccupied ?g1 then ?g1 else tl ?g1 @ [freshRow bs]"
  let ?raw = "if m = Classic then ?s1'\<lparr>grid := ?g2, timeLeft := TIME_MODE_INTERVAL\<rparr> else ?s1'"
  let ?s2 = "afterRender True s1 ?raw"
  have c: "clearAndCompact ids (grid s1) = Inr ?g1"
    using assms(2) by (rule clearAndCompact_columns(1))
  have wf1: "wfGrid ?g1" using assms(2) by (rule clearAndCompact_columns(2))
  hence inj: "injectRow bs ?g1 = Inr ?g2" by (simp add: injectRow_total wfGrid_def)
  have raw: "handleSuccessTimeout ids m bs u s1 = Inr ?raw"
    by (simp add: handleSuccessTimeout_def c Let_def addRow_def inj)
  hence st: "step (Resolve ids m bs u) s1 = Inr ?s2" by simp
  have cnt: "length (tiles ?g1) + length (filter (\<lambda>t. block_id t |\<in>| ids) (tiles (grid s1)))
              = length (tiles (grid s1))"
    using assms(2) by (rule tiles_after_clear)
  have sel: "distinct (map block_id (tiles (grid s1))) \<and>
             fset ids \<subseteq> block_id ` set (tiles (grid s1)) \<longrightarrow>
               length (filter (\<lambda>t. block_id t |\<in>| ids) (tiles (grid s1))) = fcard ids"
    by (simp add: selected_count)
  have tg: "10 \<le> target ?s2" "target ?s2 \<le> 25"
    using nextTarget_range [OF assms(3)] by (simp_all add: afterRender_fields)
  have rest: "score ?s2 = score s1" "selectedIds ?s2 = {||}" "clearingIds ?s2 = {||}"
    "\<not> isProcessing ?s2"
    by (simp_all add: afterRender_fields)
  have gr: "m = Classic \<longrightarrow> injectRow bs ?g1 = Inr (grid ?s2)" "m = Time \<longrightarrow> grid ?s2 = ?g1"
    using inj by (simp_all add: afterRender_fields)
  show "\<exists>g1 s2. clearAndCompact ids (grid s1) = Inr g1 \<and>
            step (Resolve ids m bs u) s1 = Inr s2 \<and>
            length (tiles g1) + length (filter (\<lambda>t. block_id t |\<in>| ids) (tiles (grid s1)))
              = length (tiles (grid s1)) \<and>
            (distinct (map block_id (tiles (grid s1))) \<and>
             fset ids \<subseteq> block_id ` set (tiles (grid s1)) \<longrightarrow>
               length (filter (\<lambda>t. block_id t |\<in>| ids) (tiles (grid s1))) = fcard ids) \<and>
            score s2 = score s1 \<and> 10 \<le> target s2 \<and> target s2 \<le> 25 \<and>
            selectedIds s2 = {||} \<and> clearingIds s2 = {||} \<and> \<not> isProcessing s2 \<and>
            (m = Classic \<longrightarrow> injectRow bs g1 = Inr (grid s2)) \<and>
            (m = Time \<longrightarrow> grid s2 = g1)"
    using c st cnt sel tg rest gr by blast
qed

theorem match_resolution_spec_witness:
  "\<not> isProcessing (sampleState\<lparr>target := 17\<rparr>) \<and> wfGrid (grid (sampleState\<lparr>target := 17\<rparr>)) \<and>
   unit_interval (1 / 2) \<and>
   distinct (map block_id (tiles (grid (sampleState\<lparr>target := 17\<rparr>)))) \<and>
   fset {|''a'', ''b'', ''c'', ''d''|} \<subseteq> block_id ` set (tiles (grid (sampleState\<lparr>target := 17\<rparr>))) \<and>
   score (handleSuccess {|''a'', ''b'', ''c'', ''d''|} (sampleState\<lparr>target := 17\<rparr>)) =
     score (sampleState\<lparr>target := 17\<rparr>) + 40 \<and>
   (\<exists>g1 s2. clearAndCompact {|''a'', ''b'', ''c'', ''d''|} (grid (sampleState\<lparr>target := 17\<rparr>)) = Inr g1 \<and>
      step (Resolve {|''a'', ''b'', ''c'', ''d''|} Classic sampleDraws (1 / 2))
        (sampleState\<lparr>target := 17\<rparr>) = Inr s2 \<and>
      length (tiles g1) + 4 = length (tiles (grid (sampleState\<lparr>target := 17\<rparr>))) \<and>
      10 \<le> target s2 \<and> target s2 \<le> 25 \<and> selectedIds s2 = {||} \<and>
      injectRow sampleDraws g1 = Inr (grid s2))"
proof -
  let ?s = "sampleState\<lparr>target := 17\<rparr>"
  let ?ids = "{|''a'', ''b'', ''c'', ''d''|}"
  have a: "\<not> isProcessing ?s" by (simp add: sampleState_def)
  have g: "grid ?s = sampleGrid" by (simp add: sampleState_def)
  have b: "wfGrid (grid ?s)" unfolding g by code_simp
  have c: "unit_interval (1 / 2)" by (simp add: unit_interval_def)
  have d: "distinct (map block_id (tiles (grid ?s)))" unfolding g by code_simp
  have t: "map block_id (tiles sampleGrid) = [''e'', ''g'', ''a'', ''b'', ''c'', ''d'', ''f'', ''h'']"
    by code_simp
  have e: "fset ?ids \<subseteq> block_id ` set (tiles (grid ?s))"
    unfolding g set_map [symmetric] t by simp
  have f: "fcard ?ids = 4" by code_simp
  from match_resolution_spec [OF a b c, of ?ids Classic sampleDraws] d e f
  show ?thesis using a b c by auto
qed

text \<open>
  The round that \<^verbatim>\<open>startGame\<close> builds when the first draws of its first two calls of
  \<^verbatim>\<open>generateBlock\<close> are both \<open>1/2\<close> and the target is 10: its first two blocks have the
  id \<^verbatim>\<open>i\<close> and the value 5.
\<close>

lemma halfDraw_value: "roundToDouble (2 ^ 52 * 9) div 2 ^ 53 = 4"
  by (simp add: roundToDouble_def extraBits.simps Let_def)

lemma sampleBlock:
  "generateBlock (sampleDraws k) = mkBlock (take 9 (drop 2 (sampleTexts ! (k mod 24)))) 5"
  using halfDraw_value
  by (simp add: generateBlock_def sampleDraws_def mkBlock_def substring_def BLOCK_MAX_def
      BLOCK_MIN_def)

lemma sameBlock: "generateBlock (sameDraws k) = mkBlock ''i'' 5"
  using halfDraw_value
  by (simp add: generateBlock_def sameDraws_def mkBlock_def substring_def BLOCK_MAX_def
      BLOCK_MIN_def)

lemma tiles_newGrid:
  "tiles (newGrid bs) = map (\<lambda>k. generateBlock (bs k)) [0..<18]"
proof -
  have e: "somes emptyRow = []" by (simp add: emptyRow_def somes_replicate_None)
  have f: "\<And>k. somes (filledRow bs k) = map (\<lambda>c. generateBlock (bs (k * COLS + c))) [0..<COLS]"
    by (simp add: filledRow_def somes_map_Some_fun)
  show ?thesis
    by (simp add: tiles_def newGrid_eq somes_append e f COLS_def upt_rec numeral_eq_Suc)
qed

lemma dupTiles:
  "tiles (newGrid dupDraws) =
     [mkBlock ''i'' 5, mkBlock ''i'' 5, mkBlock ''4i'' 5, mkBlock ''29'' 5, mkBlock ''14i'' 5,
      mkBlock ''0k9'' 5, mkBlock ''0a4i'' 5, mkBlock ''0529'' 5, mkBlock ''02j4i'' 5,
      mkBlock ''019k9'' 5, mkBlock ''00ms4i'' 5, mkBlock ''00be29'' 5, mkBlock ''005p14i'' 5,
      mkBlock ''002uik9'' 5, mkBlock ''001f9a4i'' 5, mkBlock ''000pmn29'' 5,
      mkBlock ''000ctbj4i'' 5, mkBlock ''0006enrk9'' 5]"
  by (simp add: tiles_newGrid dupDraws_def sampleBlock sameBlock sampleTexts_def upt_rec)

lemma dupState_start: "step (Start Classic dupDraws 0) (initial 0) = Inr dupState"
proof -
  have t: "nextTarget 0 = 10" by (simp add: nextTarget_def TARGET_MAX_def TARGET_MIN_def)
  have n: "\<not> isTopRowOccupied (newGrid dupDraws)" by (rule newGrid_top)
  show ?thesis
    by (simp add: initial_def startGame_def initGrid_def dupState_def t n
        afterRender_def gameOverEffect_def TIME_MODE_INTERVAL_def)
qed

lemma dupState_click: "step (Click (mkBlock ''i'' 5)) dupState = Inr dupMatched"
proof -
  have g: "grid dupState = newGrid dupDraws" by (simp add: dupState_def)
  have "mkBlock ''i'' 5 \<in> set (tiles (newGrid dupDraws))" by (simp add: dupTiles)
  hence m: "Some (mkBlock ''i'' 5) \<in> set (concat (grid dupState))"
    by (simp only: tiles_def Some_in_somes [symmetric] g)
  have c: "currentSum (grid dupState) {|''i''|} = 10"
    by (simp add: currentSum_eq dupState_def dupTiles mkBlock_def)
  have "handleBlockClick (mkBlock ''i'' 5) dupState =
        dupState\<lparr>isProcessing := True, clearingIds := {|''i''|}, score := 10\<rparr>"
    using c
    by (simp add: handleBlockClick_def toggleId_def handleSuccess_def Let_def)
       (simp add: dupState_def mkBlock_def fcard_finsert_if)
  thus ?thesis using m
    by (simp add: afterRender_def highScoreEffect_def dupMatched_def dupState_def)
qed

text \<open>
  A click on the first block of that round selects one id and is a match: the score
  rises by 10, and the updater of the callback takes two blocks out of the grid.
\<close>

theorem match_score_counterexample:
  "reachable dupState \<and> step (Click (mkBlock ''i'' 5)) dupState = Inr dupMatched \<and>
   score dupState = 0 \<and> score dupMatched = 10 \<and> clearingIds dupMatched = {|''i''|} \<and>
   length (tiles (grid dupMatched)) = 18 \<and>
   clearAndCompact {|''i''|} (grid dupMatched) =
     Inr (gravity (map (map (clearCell {|''i''|})) (grid dupMatched))) \<and>
   length (tiles (gravity (map (map (clearCell {|''i''|})) (grid dupMatched)))) = 16"
proof -
  have r: "reachable dupState"
    using reachable_initial [of 0] dupState_start by (rule reachable_step)
  have g: "grid dupMatched = newGrid dupDraws" by (simp add: dupMatched_def dupState_def)
  have wf: "wfGrid (grid dupMatched)" unfolding g by (rule newGrid_wf)
  have n: "length (tiles (grid dupMatched)) = 18" unfolding g by (simp add: dupTiles)
  have k: "length (filter (\<lambda>t. block_id t |\<in>| {|''i''|}) (tiles (grid dupMatched))) = 2"
    unfolding g by (simp add: dupTiles mkBlock_def)
  have "length (tiles (gravity (map (map (clearCell {|''i''|})) (grid dupMatched)))) + 2 = 18"
    using tiles_after_clear [OF wf, of "{|''i''|}"] n k by simp
  hence a: "length (tiles (gravity (map (map (clearCell {|''i''|})) (grid dupMatched)))) = 16"
    by simp
  have c: "clearAndCompact {|''i''|} (grid dupMatched) =
     Inr (gravity (map (map (clearCell {|''i''|})) (grid dupMatched)))"
    using wf by (rule clearAndCompact_columns(1))
  have s: "score dupState = 0" "score dupMatched = 10" "clearingIds dupMatched = {|''i''|}"
    by (simp_all add: dupMatched_def dupState_def)
  show ?thesis using r dupState_click s n c a by blast
qed

section \<open>Game over\<close>

lemma handleBlockClick_fields:
  "grid (handleBlockClick b s) = grid s" "isGameOver (handleBlockClick b s) = isGameOver s"
  "gameStarted (handleBlockClick b s) = gameStarted s"
  by (simp_all add: handleBlockClick_def handleSuccess_def Let_def)

lemma injectRow_wf:
  assumes "wfGrid g" "injectRow bs g = Inr g'"
  shows "wfGrid g'"
proof -
  have l: "length g = ROWS" using assms(1) by (simp add: wfGrid_def)
  have "g' = (if isTopRowOccupied g then g else tl g @ [freshRow bs])"
    using assms(2) injectRow_total [OF l, of bs] by simp
  moreover have "wfGrid (tl g @ [freshRow bs])"
    using assms(1) l
    by (cases g) (simp_all add: wfGrid_def freshRow_props ROWS_def)
  ultimately show ?thesis using assms(1) by simp
qed

lemma handleSuccessTimeout_cases:
  assumes "handleSuccessTimeout ids m bs u s = Inr s'"
  obtains g1 where "clearAndCompact ids (grid s) = Inr g1" "m \<noteq> Classic" "grid s' = g1"
      "isGameOver s' = isGameOver s" "gameStarted s' = gameStarted s"
  | g1 g2 where "clearAndCompact ids (grid s) = Inr g1" "m = Classic"
      "injectRow bs g1 = Inr g2" "grid s' = g2"
      "isGameOver s' = isGameOver s" "gameStarted s' = gameStarted s"
  using assms
  by (auto simp: handleSuccessTimeout_def addRow_def Let_def split: sum.splits if_splits)

lemma timerTick_cases:
  assumes "timerTick bs s = Inr s'"
  obtains "100 < timeLeft s" "s' = s\<lparr>timeLeft := timeLeft s - 100\<rparr>"
  | g where "timeLeft s \<le> 100" "injectRow bs (grid s) = Inr g"
      "s' = s\<lparr>grid := g, timeLeft := TIME_MODE_INTERVAL\<rparr>"
  using assms
  by (auto simp: timerTick_def addRow_def split: sum.splits if_splits)

lemma clearAndCompact_wf:
  assumes "g = [] \<or> wfGrid g" "clearAndCompact ids g = Inr g1"
  shows "wfGrid g1"
proof -
  have "g \<noteq> []" using assms(2) by (auto simp: clearAndCompact_def ROWS_def)
  hence wf: "wfGrid g" using assms(1) by simp
  show ?thesis
    using clearAndCompact_columns(1,2) [OF wf, of ids] assms(2) by simp
qed

lemma step_roundInv:
  assumes "roundInv s" "step e s = Inr s'"
  shows "roundInv s'"
proof (cases e)
  case (Start m bs u)
  thus ?thesis using assms newGrid_wf [of bs]
    by (auto simp: roundInv_def afterRender_fields startGame_def initGrid_def split: if_splits)
next
  case (Reset bs u)
  thus ?thesis using assms newGrid_wf [of bs]
    by (auto simp: roundInv_def afterRender_fields resetGame_def initGrid_def split: if_splits)
next
  case (Click b)
  thus ?thesis using assms
    by (auto simp: roundInv_def afterRender_fields handleBlockClick_fields split: if_splits)
next
  case (Resolve ids m bs u)
  then obtain raw where raw: "handleSuccessTimeout ids m bs u s = Inr raw"
      and s': "s' = afterRender True s raw"
    using assms(2) by (auto split: sum.splits)
  from raw show ?thesis
  proof (cases rule: handleSuccessTimeout_cases)
    case (1 g1)
    have "wfGrid g1" using clearAndCompact_wf [OF _ 1(1)] assms(1) by (simp add: roundInv_def)
    thus ?thesis using 1 by (simp add: roundInv_def s' afterRender_fields)
  next
    case (2 g1 g2)
    have "wfGrid g1" using clearAndCompact_wf [OF _ 2(1)] assms(1) by (simp add: roundInv_def)
    hence "wfGrid g2" using 2(3) by (rule injectRow_wf)
    thus ?thesis using 2 by (simp add: roundInv_def s' afterRender_fields)
  qed
next
  case (Tick bs)
  show ?thesis
  proof (cases "timerActive s")
    case False
    thus ?thesis using assms Tick by simp
  next
    case True
    then obtain raw where raw: "timerTick bs s = Inr raw"
      and s': "s' = afterRender (timeLeft s \<le> 100 \<and> \<not> isTopRowOccupied (grid s)) s raw"
      using assms(2) Tick by (auto split: sum.splits)
    have wf: "wfGrid (grid s)" using True assms(1) by (simp add: roundInv_def timerActive_def)
    from raw show ?thesis
    proof (cases rule: timerTick_cases)
      case 1
      thus ?thesis using assms(1) by (simp add: roundInv_def s' afterRender_fields)
    next
      case (2 g)
      have wfg: "wfGrid g" using wf 2(2) by (rule injectRow_wf)
      show ?thesis
      proof (cases "isTopRowOccupied (grid s)")
        case True
        hence "g = grid s" using 2(2) by (simp add: injectRow_suppressed)
        thus ?thesis using assms(1) True 2 by (simp add: roundInv_def s' afterRender_fields)
      next
        case False
        thus ?thesis using 2 wfg by (simp add: roundInv_def s' afterRender_fields)
      qed
    qed
  qed
next
  case TogglePause
  thus ?thesis using assms by (auto simp: roundInv_def split: if_splits)
next
  case Resume
  thus ?thesis using assms by (auto simp: roundInv_def split: if_splits)
next
  case Menu
  thus ?thesis using assms by (auto simp: roundInv_def split: if_splits)
qed

lemma reachable_roundInv: "reachable s \<Longrightarrow> roundInv s"
proof (induction rule: reachable.induct)
  case (reachable_initial hs)
  show ?case by (simp add: roundInv_def initial_def isTopRowOccupied_def)
next
  case (reachable_step s e s')
  thus ?case by (simp add: step_roundInv)
qed

lemma step_total:
  assumes "roundInv s" "gameStarted s"
  shows "\<exists>s'. step e s = Inr s'"
proof -
  have wf: "wfGrid (grid s)" using assms by (simp add: roundInv_def)
  hence l: "length (grid s) = ROWS" by (simp add: wfGrid_def)
  show ?thesis
  proof (cases e)
    case (Resolve ids m bs u)
    let ?g1 = "gravity (map (map (clearCell ids)) (grid s))"
    have c: "clearAndCompact ids (grid s) = Inr ?g1" using wf by (rule clearAndCompact_columns(1))
    have "wfGrid ?g1" using wf by (rule clearAndCompact_columns(2))
    hence "length ?g1 = ROWS" by (simp add: wfGrid_def)
    hence "\<exists>g2. injectRow bs ?g1 = Inr g2" by (simp add: injectRow_total)
    thus ?thesis using Resolve c
      by (auto simp: handleSuccessTimeout_def addRow_def Let_def)
  next
    case (Tick bs)
    have "\<exists>g. injectRow bs (grid s) = Inr g" using l by (simp add: injectRow_total)
    thus ?thesis using Tick by (auto simp: timerTick_def addRow_def)
  qed simp_all
qed

text \<open>
  C1. From every state that events lead to and in which the round is not over, an event
  of a started round returns a state, and the round is over in the state an event returns
  if and only if row 0 holds a block in one of the grids that the event left right after a
  call of the updater of \<^verbatim>\<open>handleSuccess\<close> or of \<^verbatim>\<open>addRow\<close>.
\<close>

theorem gameOver_iff_checkpoint:
  assumes "reachable s" "\<not> isGameOver s"
  shows "(gameStarted s \<longrightarrow> (\<exists>s'. step e s = Inr s')) \<and>
         (\<forall>s'. step e s = Inr s' \<longrightarrow>
            (isGameOver s' \<longleftrightarrow> (\<exists>g \<in> set (checkpoints e s). isTopRowOccupied g)))"
proof (intro conjI allI impI)
  assume "gameStarted s"
  thus "\<exists>s'. step e s = Inr s'" using reachable_roundInv [OF assms(1)] by (simp add: step_total)
next
  fix s' assume st: "step e s = Inr s'"
  have top: "\<not> isTopRowOccupied (grid s)"
    using reachable_roundInv [OF assms(1)] assms(2) by (auto simp: roundInv_def)
  show "isGameOver s' \<longleftrightarrow> (\<exists>g \<in> set (checkpoints e s). isTopRowOccupied g)"
  proof (cases e)
    case (Start m bs u)
    thus ?thesis using st assms(2) newGrid_top [of bs]
      by (auto simp: afterRender_fields startGame_def initGrid_def split: if_splits)
  next
    case (Reset bs u)
    thus ?thesis using st assms(2) newGrid_top [of bs]
      by (auto simp: afterRender_fields resetGame_def initGrid_def split: if_splits)
  next
    case (Click b)
    thus ?thesis using st assms(2)
      by (auto simp: afterRender_fields handleBlockClick_fields split: if_splits)
  next
    case (Resolve ids m bs u)
    then obtain raw where raw: "handleSuccessTimeout ids m bs u s = Inr raw"
      and s': "s' = afterRender True s raw"
      using st by (auto split: sum.splits)
    from raw show ?thesis
    proof (cases rule: handleSuccessTimeout_cases)
      case (1 g1)
      thus ?thesis using Resolve assms(2) by (simp add: s' afterRender_fields)
    next
      case (2 g1 g2)
      have "isTopRowOccupied g1 \<longrightarrow> g2 = g1" using 2(3) by (auto simp: injectRow_suppressed)
      thus ?thesis using Resolve 2 assms(2) by (auto simp: s' afterRender_fields)
    qed
  next
    case (Tick bs)
    show ?thesis
    proof (cases "timerActive s")
      case False
      thus ?thesis using st Tick assms(2) by simp
    next
      case True
      then obtain raw where raw: "timerTick bs s = Inr raw"
        and s': "s' = afterRender (timeLeft s \<le> 100 \<and> \<not> isTopRowOccupied (grid s)) s raw"
        using st Tick by (auto split: sum.splits)
      from raw show ?thesis
      proof (cases rule: timerTick_cases)
        case 1
        thus ?thesis using Tick assms(2) True by (simp add: s' afterRender_fields)
      next
        case (2 g)
        thus ?thesis using Tick assms(2) True top by (simp add: s' afterRender_fields)
      qed
    qed
  next
    case TogglePause
    thus ?thesis using st assms(2) by (auto split: if_splits)
  next
    case Resume
    thus ?thesis using st assms(2) by (auto split: if_splits)
  next
    case Menu
    thus ?thesis using st assms(2) by (auto split: if_splits)
  qed
qed

lemma columnOf_append: "columnOf (xs @ ys) c = columnOf xs c @ columnOf ys c"
  by (simp add: columnOf_def)

lemma columnOf_replicate: "columnOf (replicate n row) c = replicate n (cellAt row c)"
  by (simp add: columnOf_def)

lemma cellAt_rows:
  "cellAt emptyRow c = None"
  "c < COLS \<Longrightarrow> cellAt (filledRow bs k) c = Some (generateBlock (bs (k * COLS + c)))"
  "c < COLS \<Longrightarrow> cellAt (freshRow bs) c = Some (generateBlock (bs c))"
  by (simp_all add: cellAt_def emptyRow_def filledRow_def freshRow_def)

lemma length_rows:
  "length emptyRow = COLS" "length (filledRow bs k) = COLS" "length (freshRow bs) = COLS"
  by (simp_all add: emptyRow_def filledRow_def freshRow_def)

lemma stackGrid_wf: "k \<le> 7 \<Longrightarrow> wfGrid (stackGrid k)"
  by (auto simp: wfGrid_def stackGrid_def ROWS_def list_all_iff length_rows)

lemma settledColumn_all_Some: "list_all (\<lambda>cell. cell \<noteq> None) col \<Longrightarrow> settledColumn col"
  by (cases col rule: settledColumn.cases) simp_all

lemma stackGrid_settled: "settledGrid (stackGrid k)"
proof -
  have "\<And>c. c < COLS \<Longrightarrow> settledColumn (columnOf (stackGrid k) c)"
    unfolding stackGrid_def columnOf_append columnOf_replicate cellAt_rows settledColumn_append_None
    by (rule settledColumn_all_Some) (auto simp: columnOf_def cellAt_rows list_all_iff)
  thus ?thesis by (simp add: settledGrid_def list_all_iff)
qed

lemma stackGrid_top: "isTopRowOccupied (stackGrid k) \<longleftrightarrow> 7 \<le> k"
proof (cases "7 \<le> k")
  case True
  hence "stackGrid k ! 0 = filledRow sampleDraws 0" by (simp add: stackGrid_def)
  moreover have "rowOccupied (filledRow sampleDraws 0)"
    by (auto simp: rowOccupied_def filledRow_def list_ex_iff COLS_def intro!: exI [of _ "0::nat"])
  ultimately show ?thesis using True by (simp add: isTopRowOccupied_def stackGrid_def)
next
  case False
  then obtain j where j: "7 - k = Suc j" by (cases "7 - k") auto
  hence "stackGrid k ! 0 = emptyRow" by (simp add: stackGrid_def)
  moreover have "\<not> rowOccupied emptyRow" by (simp add: rowOccupied_def emptyRow_def list_ex_iff)
  ultimately show ?thesis using False by (simp add: isTopRowOccupied_def)
qed

lemma stackGrid_inject:
  assumes "k < 7"
  shows "injectRow sampleDraws (stackGrid k) = Inr (stackGrid (Suc k))"
proof -
  have wf: "length (stackGrid k) = ROWS" using stackGrid_wf [of k] assms by (simp add: wfGrid_def)
  obtain j where j: "7 - k = Suc j" using assms by (cases "7 - k") auto
  hence j': "6 - k = j" by arith
  have "tl (stackGrid k) @ [freshRow sampleDraws] = stackGrid (Suc k)"
    by (simp add: stackGrid_def j j' replicate_append_same)
  thus ?thesis using injectRow_total [OF wf, of sampleDraws] assms by (simp add: stackGrid_top)
qed

lemma stackGrid_clear: "k \<le> 7 \<Longrightarrow> clearAndCompact {||} (stackGrid k) = Inr (stackGrid k)"
  using clearAndCompact_columns(1) [OF stackGrid_wf, of k "{||}"]
  by (simp add: clearCell_empty map_idI gravity_settled stackGrid_wf stackGrid_settled)

lemma stackState_step:
  assumes "k < 7"
  shows "step (Resolve {||} Classic sampleDraws (1 / 2)) (stackState k) =
         Inr ((stackState (Suc k))\<lparr>isGameOver := (k = 6)\<rparr>)"
proof -
  have t: "nextTarget (1 / 2) = 18" by (simp add: nextTarget_def TARGET_MAX_def TARGET_MIN_def)
  have g: "isTopRowOccupied (stackGrid (Suc k)) \<longleftrightarrow> k = 6" using assms by (auto simp: stackGrid_top)
  have c: "clearAndCompact {||} (stackGrid k) = Inr (stackGrid k)"
    using assms by (simp add: stackGrid_clear)
  show ?thesis
    using assms
    by (simp add: handleSuccessTimeout_def stackState_def c stackGrid_inject addRow_def t
        afterRender_def gameOverEffect_def g TIME_MODE_INTERVAL_def)
qed

lemma stackState_start:
  "step (Start Classic sampleDraws (1 / 2)) (initial 0) = Inr (stackState 0)"
proof -
  have t: "nextTarget (1 / 2) = 18" by (simp add: nextTarget_def TARGET_MAX_def TARGET_MIN_def)
  have g: "newGrid sampleDraws = stackGrid 0" by (simp add: newGrid_eq stackGrid_def)
  have n: "\<not> isTopRowOccupied (stackGrid 0)" by (simp add: stackGrid_top)
  show ?thesis
    by (simp add: initial_def startGame_def initGrid_def stackState_def t g n
        afterRender_def gameOverEffect_def TIME_MODE_INTERVAL_def)
qed

lemma stackState_reachable: "k \<le> 6 \<Longrightarrow> reachable (stackState k)"
proof (induction k)
  case 0
  show ?case using reachable_initial [of 0] stackState_start by (rule reachable_step)
next
  case (Suc k)
  hence r: "reachable (stackState k)" and k: "k < 6" by simp_all
  have "step (Resolve {||} Classic sampleDraws (1 / 2)) (stackState k) = Inr (stackState (Suc k))"
    using stackState_step [of k] k by (simp add: stackState_def)
  with r show ?case by (rule reachable_step)
qed

theorem gameOver_iff_checkpoint_witness:
  "reachable (stackState 6) \<and> \<not> isGameOver (stackState 6) \<and> gameStarted (stackState 6) \<and>
   checkpoints (Resolve {||} Classic sampleDraws (1 / 2)) (stackState 6) =
     [stackGrid 6, stackGrid 7] \<and>
   \<not> isTopRowOccupied (stackGrid 6) \<and> isTopRowOccupied (stackGrid 7) \<and>
   (\<exists>s'. step (Resolve {||} Classic sampleDraws (1 / 2)) (stackState 6) = Inr s' \<and> isGameOver s') \<and>
   (\<exists>s'. step (Tick sampleDraws) (stackState 6) = Inr s' \<and> \<not> isGameOver s')"
proof -
  let ?e = "Resolve {||} Classic sampleDraws (1 / 2)"
  have r: "reachable (stackState 6)" by (simp add: stackState_reachable)
  have n: "\<not> isGameOver (stackState 6)" and gs: "gameStarted (stackState 6)"
    by (simp_all add: stackState_def)
  have cp: "checkpoints ?e (stackState 6) = [stackGrid 6, stackGrid 7]"
    using stackGrid_clear [of 6] stackGrid_inject [of 6]
    by (simp add: stackState_def eval_nat_numeral)
  have cpt: "checkpoints (Tick sampleDraws) (stackState 6) = []"
    by (simp add: stackState_def timerActive_def)
  have top: "\<not> isTopRowOccupied (stackGrid 6)" "isTopRowOccupied (stackGrid 7)"
    by (simp_all add: stackGrid_top)
  note c1 = gameOver_iff_checkpoint [OF r n, of ?e]
  from c1 gs obtain s1 where s1: "step ?e (stackState 6) = Inr s1" by blast
  with c1 have "isGameOver s1 \<longleftrightarrow> (\<exists>g \<in> set [stackGrid 6, stackGrid 7]. isTopRowOccupied g)"
    unfolding cp by blast
  hence "isGameOver s1" using top by simp
  hence 1: "\<exists>s'. step ?e (stackState 6) = Inr s' \<and> isGameOver s'" using s1 by blast
  note c2 = gameOver_iff_checkpoint [OF r n, of "Tick sampleDraws"]
  from c2 gs obtain s2 where s2: "step (Tick sampleDraws) (stackState 6) = Inr s2" by blast
  with c2 have "isGameOver s2 \<longleftrightarrow> (\<exists>g \<in> set []. isTopRowOccupied g)"
    unfolding cpt by blast
  hence "\<not> isGameOver s2" by simp
  hence 2: "\<exists>s'. step (Tick sampleDraws) (stackState 6) = Inr s' \<and> \<not> isGameOver s'"
    using s2 by blast
  show ?thesis using r n gs cp top 1 2 by blast
qed

section \<open>The grids of the game are settled\<close>

lemma settledColumn_snoc: "settledColumn col \<Longrightarrow> settledColumn (col @ [Some x])"
  by (induction col rule: settledColumn.induct) simp_all

lemma settledColumn_shift: "settledColumn col \<Longrightarrow> settledColumn (tl col @ [Some x])"
proof (cases col rule: settledColumn.cases)
  case 1
  thus ?thesis by simp
next
  case (2 rest)
  assume "settledColumn col"
  thus ?thesis using 2 by (simp add: settledColumn_snoc)
next
  case (3 b rest)
  assume "settledColumn col"
  hence "list_all (\<lambda>cell. cell \<noteq> None) (rest @ [Some x])" using 3 by simp
  thus ?thesis using 3 by (simp add: settledColumn_all_Some)
qed

lemma columnOf_tl: "columnOf (tl g) c = tl (columnOf g c)"
  by (simp add: columnOf_def map_tl)

lemma injectRow_settled:
  assumes "wfGrid g" "settledGrid g" "injectRow bs g = Inr g'"
  shows "settledGrid g'"
proof -
  have l: "length g = ROWS" using assms(1) by (simp add: wfGrid_def)
  have e: "g' = (if isTopRowOccupied g then g else tl g @ [freshRow bs])"
    using assms(3) injectRow_total [OF l, of bs] by simp
  have "settledGrid (tl g @ [freshRow bs])"
    using assms(2)
    by (simp add: settledGrid_def list_all_iff columnOf_append columnOf_tl columnOf_def [of "[_]"]
        cellAt_rows settledColumn_shift)
  thus ?thesis using e assms(2) by simp
qed

lemma newGrid_settled: "settledGrid (newGrid bs)"
proof -
  have "\<And>c. c < COLS \<Longrightarrow> settledColumn (columnOf (newGrid bs) c)"
    unfolding newGrid_eq columnOf_append columnOf_replicate cellAt_rows settledColumn_append_None
    by (rule settledColumn_all_Some) (auto simp: columnOf_def cellAt_rows list_all_iff)
  thus ?thesis by (simp add: settledGrid_def list_all_iff)
qed

lemma step_settled:
  assumes "roundInv s" "settledGrid (grid s)" "step e s = Inr s'"
  shows "settledGrid (grid s')"
proof (cases e)
  case (Start m bs u)
  thus ?thesis using assms newGrid_settled [of bs]
    by (auto simp: afterRender_fields startGame_def initGrid_def split: if_splits)
next
  case (Reset bs u)
  thus ?thesis using assms newGrid_settled [of bs]
    by (auto simp: afterRender_fields resetGame_def initGrid_def split: if_splits)
next
  case (Click b)
  thus ?thesis using assms
    by (auto simp: afterRender_fields handleBlockClick_fields split: if_splits)
next
  case (Resolve ids m bs u)
  then obtain raw where raw: "handleSuccessTimeout ids m bs u s = Inr raw"
      and s': "s' = afterRender True s raw"
    using assms(3) by (auto split: sum.splits)
  have ok: "grid s = [] \<or> wfGrid (grid s)" using assms(1) by (simp add: roundInv_def)
  have g1: "\<And>g1. clearAndCompact ids (grid s) = Inr g1 \<Longrightarrow> wfGrid g1 \<and> settledGrid g1"
  proof -
    fix g1 assume c: "clearAndCompact ids (grid s) = Inr g1"
    have "grid s \<noteq> []" using c by (auto simp: clearAndCompact_def ROWS_def)
    hence wf: "wfGrid (grid s)" using ok by simp
    show "wfGrid g1 \<and> settledGrid g1"
      using clearAndCompact_columns(1,2) [OF wf, of ids] clearAndCompact_settled [OF wf, of ids] c
      by simp
  qed
  from raw show ?thesis
  proof (cases rule: handleSuccessTimeout_cases)
    case (1 g1)
    thus ?thesis using g1 by (simp add: s' afterRender_fields)
  next
    case (2 g1 g2)
    have "settledGrid g2" using g1 [OF 2(1)] 2(3) by (blast intro: injectRow_settled)
    thus ?thesis using 2 by (simp add: s' afterRender_fields)
  qed
next
  case (Tick bs)
  show ?thesis
  proof (cases "timerActive s")
    case False
    thus ?thesis using assms Tick by simp
  next
    case True
    then obtain raw where raw: "timerTick bs s = Inr raw"
      and s': "s' = afterRender (timeLeft s \<le> 100 \<and> \<not> isTopRowOccupied (grid s)) s raw"
      using assms(3) Tick by (auto split: sum.splits)
    have wf: "wfGrid (grid s)" using True assms(1) by (simp add: roundInv_def timerActive_def)
    from raw show ?thesis
    proof (cases rule: timerTick_cases)
      case 1
      thus ?thesis using assms(2) by (simp add: s' afterRender_fields)
    next
      case (2 g)
      have "settledGrid g" using wf assms(2) 2(2) by (rule injectRow_settled)
      thus ?thesis using 2 by (simp add: s' afterRender_fields)
    qed
  qed
next
  case TogglePause
  thus ?thesis using assms by (auto split: if_splits)
next
  case Resume
  thus ?thesis using assms by (auto split: if_splits)
next
  case Menu
  thus ?thesis using assms by (auto split: if_splits)
qed

lemma reachable_settled: "reachable s \<Longrightarrow> settledGrid (grid s)"
proof (induction rule: reachable.induct)
  case (reachable_initial hs)
  show ?case by (simp add: initial_def settledGrid_def columnOf_def list_all_iff)
next
  case (reachable_step s e s')
  thus ?case using reachable_roundInv [of s] by (blast intro: step_settled)
qed

section \<open>Idempotence of clearing and compaction\<close>

text \<open>
  C6. The grid of every state that events lead to, once \<^verbatim>\<open>initGrid\<close> has replaced the
  empty array of the first render, is returned unchanged by the updater of
  \<^verbatim>\<open>handleSuccess\<close> when the set of ids is empty, as is every grid of \<open>ROWS\<close> by \<open>COLS\<close>
  cells in which no column has an empty cell below a block; and for every grid of that
  shape and every set of ids, the updater applied to its own result with the same set
  returns that result.
\<close>

theorem clearAndCompact_idempotent:
  "(reachable s \<and> grid s \<noteq> [] \<longrightarrow> clearAndCompact {||} (grid s) = Inr (grid s)) \<and>
   (wfGrid g \<and> settledGrid g \<longrightarrow> clearAndCompact {||} g = Inr g) \<and>
   (wfGrid g \<longrightarrow> (\<exists>g1. clearAndCompact ids g = Inr g1 \<and> clearAndCompact ids g1 = Inr g1))"
proof (intro conjI impI)
  assume a: "reachable s \<and> grid s \<noteq> []"
  hence wf: "wfGrid (grid s)" using reachable_roundInv [of s] by (simp add: roundInv_def)
  have st: "settledGrid (grid s)" using a by (simp add: reachable_settled)
  have "map (map (clearCell {||})) (grid s) = grid s" by (simp add: clearCell_empty map_idI)
  thus "clearAndCompact {||} (grid s) = Inr (grid s)"
    using wf st by (simp add: clearAndCompact_columns(1) gravity_settled)
next
  assume a: "wfGrid g \<and> settledGrid g"
  have "map (map (clearCell {||})) g = g" by (simp add: clearCell_empty map_idI)
  thus "clearAndCompact {||} g = Inr g"
    using a by (simp add: clearAndCompact_columns(1) gravity_settled)
next
  assume wf: "wfGrid g"
  let ?g1 = "gravity (map (map (clearCell ids)) g)"
  have e1: "clearAndCompact ids g = Inr ?g1" using wf by (rule clearAndCompact_columns(1))
  have wf1: "wfGrid ?g1" using wf by (rule clearAndCompact_columns(2))
  have st1: "settledGrid ?g1" using wf by (rule clearAndCompact_settled)
  have none: "\<forall>b. Some b \<in> set (concat ?g1) \<longrightarrow> block_id b |\<notin>| ids"
  proof (intro allI impI)
    fix b assume "Some b \<in> set (concat ?g1)"
    then obtain c where c: "c < COLS" "b \<in> set (somes (columnOf ?g1 c))"
      using cell_in_column [OF wf1] by blast
    thus "block_id b |\<notin>| ids"
      using clearAndCompact_columns(3) [OF wf, of c ids] by (simp add: somes_settle somes_clear)
  qed
  have "clearAndCompact ids ?g1 = Inr (gravity (map (map (clearCell ids)) ?g1))"
    using wf1 by (rule clearAndCompact_columns(1))
  also have "\<dots> = Inr ?g1"
    using wf1 st1 by (simp add: clear_nothing [OF none] gravity_settled)
  finally show "\<exists>g1. clearAndCompact ids g = Inr g1 \<and> clearAndCompact ids g1 = Inr g1"
    using e1 by blast
qed

theorem clearAndCompact_idempotent_witness:
  "reachable (stackState 6) \<and> grid (stackState 6) \<noteq> [] \<and>
   clearAndCompact {||} (grid (stackState 6)) = Inr (grid (stackState 6)) \<and>
   wfGrid sampleGrid \<and> settledGrid sampleGrid \<and> clearAndCompact {||} sampleGrid = Inr sampleGrid \<and>
   (\<exists>g1. clearAndCompact {|''a'', ''b''|} sampleGrid = Inr g1 \<and>
         clearAndCompact {|''a'', ''b''|} g1 = Inr g1)"
proof -
  have wf: "wfGrid sampleGrid" by code_simp
  have st: "settledGrid sampleGrid" by code_simp
  have r: "reachable (stackState 6)" by (simp add: stackState_reachable)
  have ne: "grid (stackState 6) \<noteq> []" by (simp add: stackState_def stackGrid_def)
  note t = clearAndCompact_idempotent [of "stackState 6" sampleGrid "{|''a'', ''b''|}"]
  from t r ne have 1: "clearAndCompact {||} (grid (stackState 6)) = Inr (grid (stackState 6))"
    by blast
  from t wf st have 2: "clearAndCompact {||} sampleGrid = Inr sampleGrid" by blast
  from t wf have 3: "\<exists>g1. clearAndCompact {|''a'', ''b''|} sampleGrid = Inr g1 \<and>
         clearAndCompact {|''a'', ''b''|} g1 = Inr g1" by blast
  show ?thesis using wf st r ne 1 2 3 by blast
qed

end
